theory Spec2Isabelle
  imports Main "HOL-Library.Sublist" "HOL-Library.AList" "HOL-Library.Multiset"
begin

section \<open>The program and the notions of the specification\<close>

text \<open>
  The definitions follow \<open>compare_xml.py\<close>: the strings and dictionaries of Python, the
  element tree that \<open>lxml\<close> hands to the program, \<open>WrappedElement\<close>,
  \<open>XMLUniquePath\<close> and \<open>XMLCompare\<close>. A few definitions state notions of the
  specification (the strings tried by the translation lookup, the synthetic path of a
  node, a tree with reordered siblings, the content of a wrapper) or name what the
  proofs speak about (the members of a Python set, the data of a node).
\<close>

subsection \<open>Python strings\<close>

text \<open>
  A Python \<open>str\<close> is a \<open>string\<close> (a list of characters). The three string
  operations the program uses are \<open>str.replace\<close>, \<open>str.rfind\<close> with a single
  character, and the slice \<open>s[:k]\<close>.
\<close>

text \<open>
  \<open>s.replace(old, new)\<close>: every non-overlapping occurrence of \<open>old\<close>, found from
  the left, is replaced by \<open>new\<close>. For the empty \<open>old\<close> Python puts \<open>new\<close> before
  every character and at the end.
\<close>

function str_replace :: "string \<Rightarrow> string \<Rightarrow> string \<Rightarrow> string" where
  "str_replace s old new =
     (if old = [] then new @ concat (map (\<lambda>c. c # new) s)
      else if s = [] then []
      else if take (length old) s = old
        then new @ str_replace (drop (length old) s) old new
      else hd s # str_replace (tl s) old new)"
  by pat_completeness auto
termination
  by (relation "measure (\<lambda>(s, old, new). length s)") auto

declare str_replace.simps [simp del]

text \<open>\<open>s.rfind(c)\<close>: the highest index of \<open>c\<close> in \<open>s\<close>, or \<open>-1\<close>.\<close>

fun str_rfind :: "string \<Rightarrow> char \<Rightarrow> int" where
  "str_rfind [] c = - 1"
| "str_rfind (x # xs) c =
     (let r = str_rfind xs c in
      if 0 \<le> r then r + 1 else if x = c then 0 else - 1)"

text \<open>The index is below the length; the loops over a path end for that reason.\<close>

lemma str_rfind_less: "str_rfind s c < int (length s)"
  by (induction s) (auto simp: Let_def)

text \<open>\<open>s[:k]\<close> for an integer \<open>k\<close>; a negative \<open>k\<close> counts from the end.\<close>

definition str_slice_to :: "string \<Rightarrow> int \<Rightarrow> string" where
  "str_slice_to s k =
     (if 0 \<le> k then take (nat k) s else take (nat (int (length s) + k)) s)"

subsection \<open>The element tree\<close>

text \<open>
  An \<open>lxml\<close> element as the program reads it: its tag, its attributes in document
  order (\<open>attrib.items()\<close>), its text (\<open>None\<close> when absent) and its child elements.
  The tree holds elements only (the command line parses with \<open>remove_comments\<close>), and
  a tag is a plain name without a namespace. The tail text of an element is never read.
\<close>

datatype element =
  Element (elem_tag: string) (elem_attrib: "(string \<times> string) list")
    (elem_text: "string option") (elem_children: "element list")

subsection \<open>The uniqueness fragment (\<open>_create_path_tree\<close>, steps 1 to 4)\<close>

text \<open>
  Step 1, the loop over \<open>special_attribs\<close>: the value of the first listed name that is
  an attribute of the element, then \<open>break\<close>; the empty string when the loop runs out.
\<close>

fun scan_special_attribs :: "string list \<Rightarrow> (string \<times> string) list \<Rightarrow> string" where
  "scan_special_attribs [] attrib = []"
| "scan_special_attribs (key # keys) attrib =
     (case map_of attrib key of
        Some v \<Rightarrow> v
      | None \<Rightarrow> scan_special_attribs keys attrib)"

text \<open>Step 2: the text replaces an empty \<open>unique_str\<close> when it is there and not empty.\<close>

definition unique_str_raw :: "string list \<Rightarrow> element \<Rightarrow> string" where
  "unique_str_raw special_attribs elem =
     (let unique_str = scan_special_attribs special_attribs (elem_attrib elem) in
      if unique_str = [] \<and> elem_text elem \<noteq> None \<and> 0 < length (the (elem_text elem))
      then the (elem_text elem) else unique_str)"

text \<open>Step 3: no newline and no slash.\<close>

definition sanitize :: "string \<Rightarrow> string" where
  "sanitize unique_str =
     str_replace (str_replace unique_str [CHR 0x0A] []) [CHR ''/''] []"

text \<open>Step 4: a string longer than \<open>max_text_len\<close> is cut to \<open>[:max_text_len - 1]\<close>.\<close>

definition limit_len :: "int \<Rightarrow> string \<Rightarrow> string" where
  "limit_len max_text_len unique_str =
     (if max_text_len < int (length unique_str)
      then str_slice_to unique_str (max_text_len - 1) else unique_str)"

definition unique_str :: "string list \<Rightarrow> int \<Rightarrow> element \<Rightarrow> string" where
  "unique_str special_attribs max_text_len elem =
     limit_len max_text_len (sanitize (unique_str_raw special_attribs elem))"

text \<open>Step 6: the translated path of an element under its parent's translated path.\<close>

definition translated_path :: "string list \<Rightarrow> int \<Rightarrow> string \<Rightarrow> element \<Rightarrow> string" where
  "translated_path special_attribs max_text_len parent_path elem =
     parent_path @ [CHR ''/''] @ elem_tag elem @ unique_str special_attribs max_text_len elem"

subsection \<open>The translation lookup (\<open>_replace_trans\<close>)\<close>

text \<open>
  The translation table is a Python \<open>dict\<close> from raw paths to translated paths: an
  association list in insertion order, read with \<open>map_of\<close> and written with
  \<open>AList.update\<close> (which replaces the value of a key that is there and appends a new
  key at the end, as \<open>d[k] = v\<close> does). \<open>d[k]\<close> on a missing key raises \<open>KeyError\<close>.
\<close>

datatype error = KeyError string

type_synonym trans_table = "(string \<times> string) list"

text \<open>The last line: \<open>path.replace(new_path, self._trans_table[new_path])\<close>.\<close>

definition replace_found :: "trans_table \<Rightarrow> string \<Rightarrow> string \<Rightarrow> error + string" where
  "replace_found tbl path new_path =
     (case map_of tbl new_path of
        None \<Rightarrow> Inl (KeyError new_path)
      | Some translation \<Rightarrow> Inr (str_replace path new_path translation))"

text \<open>
  The \<open>while\<close> loop with what follows it: \<open>break\<close> and the loop's normal end both go
  on to the last line, \<open>return path\<close> leaves the function.
\<close>

function replace_trans_loop :: "trans_table \<Rightarrow> string \<Rightarrow> string \<Rightarrow> error + string" where
  "replace_trans_loop tbl path new_path =
     (if 0 < length new_path then
        (if map_of tbl new_path \<noteq> None then replace_found tbl path new_path
         else (let back_one = str_rfind new_path CHR ''/'' in
               if back_one \<le> 0 then Inr path
               else replace_trans_loop tbl path (str_slice_to new_path back_one)))
      else replace_found tbl path new_path)"
  by pat_completeness auto
termination
proof (relation "measure (\<lambda>(tbl, path, new_path). length new_path)")
  show "wf (measure (\<lambda>(tbl, path, new_path). length new_path))"
    by simp
next
  fix tbl :: trans_table and path new_path :: string and back_one :: int
  assume "back_one = str_rfind new_path CHR ''/''" and "\<not> back_one \<le> 0"
  moreover have "str_rfind new_path CHR ''/'' < int (length new_path)"
    by (rule str_rfind_less)
  ultimately show "((tbl, path, str_slice_to new_path back_one), (tbl, path, new_path))
      \<in> measure (\<lambda>(tbl, path, new_path). length new_path)"
    by (simp add: str_slice_to_def)
qed

declare replace_trans_loop.simps [simp del]

definition replace_trans :: "trans_table \<Rightarrow> string \<Rightarrow> error + string" where
  "replace_trans tbl path =
     (if length tbl = 0 then Inr path else replace_trans_loop tbl path path)"

text \<open>
  The strings the loop tries for a path, in order: the path itself, then what is left each
  time the last \<open>/segment\<close> is cut off, as long as the last slash is not the first
  character. This list follows the words of the specification and does not look at the
  table.
\<close>

function strip_candidates :: "string \<Rightarrow> string list" where
  "strip_candidates p =
     (if p = [] then []
      else if str_rfind p CHR ''/'' \<le> 0 then [p]
      else p # strip_candidates (str_slice_to p (str_rfind p CHR ''/'')))"
  by pat_completeness auto
termination
proof (relation "measure length")
  show "wf (measure (length :: string \<Rightarrow> nat))"
    by simp
next
  fix p :: string
  assume "\<not> str_rfind p CHR ''/'' \<le> 0"
  moreover have "str_rfind p CHR ''/'' < int (length p)"
    by (rule str_rfind_less)
  ultimately show "(str_slice_to p (str_rfind p CHR ''/''), p) \<in> measure length"
    by (simp add: str_slice_to_def)
qed

declare strip_candidates.simps [simp del]

subsection \<open>Wrapped elements\<close>

text \<open>
  \<open>WrappedElement\<close> holds one element. \<open>__eq__\<close> compares \<open>element.attrib\<close> and
  \<open>element.text\<close>; the \<open>isinstance\<close> test holds for every pair of wrappers, the only
  objects the program compares. \<open>lxml\<close> compares two \<open>attrib\<close> objects as dictionaries
  (\<open>dict(one) == dict(other)\<close>): the same names with the same values, in any order. The
  names of one element are pairwise distinct.
\<close>

datatype wrapped_element = WrappedElement (element: element)

definition attrib_eq :: "(string \<times> string) list \<Rightarrow> (string \<times> string) list \<Rightarrow> bool" where
  "attrib_eq a b = list_all (\<lambda>k. map_of a k = map_of b k) (map fst a @ map fst b)"

definition WrappedElement_eq :: "wrapped_element \<Rightarrow> wrapped_element \<Rightarrow> bool" where
  "WrappedElement_eq self other =
     (attrib_eq (elem_attrib (element self)) (elem_attrib (element other))
      \<and> elem_text (element self) = elem_text (element other))"

text \<open>
  \<open>__hash__\<close> is \<open>hash(tuple(self.element.attrib.items() + [self.element.text]))\<close>: the
  tuple of the attribute pairs in document order, followed by the text. Python's \<open>hash\<close>
  of a tuple is a function of its items in their order; its values on strings change from
  process to process, so it is a parameter \<open>py_hash\<close> of the model.
\<close>

datatype tuple_item = AttribItem string string | TextItem "string option"

definition hash_tuple :: "wrapped_element \<Rightarrow> tuple_item list" where
  "hash_tuple self =
     map (\<lambda>(k, v). AttribItem k v) (elem_attrib (element self))
       @ [TextItem (elem_text (element self))]"

definition WrappedElement_hash :: "(tuple_item list \<Rightarrow> 'h) \<Rightarrow> wrapped_element \<Rightarrow> 'h" where
  "WrappedElement_hash py_hash self = py_hash (hash_tuple self)"

subsection \<open>Python sets of wrappers\<close>

text \<open>
  A Python \<open>set\<close> finds a key among its entries by the hash first and \<open>__eq__\<close> second:
  an entry matches when its stored hash equals the key's hash and the entry is the key
  itself or equal to it. (The identity test adds nothing here: an object has its own hash
  and equals itself.) \<open>set(xs)\<close> adds the items of the list one by one; \<open>v != w\<close> is
  the negation of \<open>v == w\<close>, which holds when the sizes agree and every entry of
  \<open>v\<close> is found in \<open>w\<close>.
\<close>

definition same_key :: "(tuple_item list \<Rightarrow> 'h) \<Rightarrow> wrapped_element \<Rightarrow> wrapped_element \<Rightarrow> bool" where
  "same_key py_hash entry key =
     (WrappedElement_hash py_hash entry = WrappedElement_hash py_hash key
      \<and> WrappedElement_eq entry key)"

definition set_contains ::
    "(tuple_item list \<Rightarrow> 'h) \<Rightarrow> wrapped_element list \<Rightarrow> wrapped_element \<Rightarrow> bool" where
  "set_contains py_hash so key = list_ex (\<lambda>entry. same_key py_hash entry key) so"

definition set_add ::
    "(tuple_item list \<Rightarrow> 'h) \<Rightarrow> wrapped_element list \<Rightarrow> wrapped_element \<Rightarrow> wrapped_element list" where
  "set_add py_hash so key = (if set_contains py_hash so key then so else so @ [key])"

definition py_set :: "(tuple_item list \<Rightarrow> 'h) \<Rightarrow> wrapped_element list \<Rightarrow> wrapped_element list" where
  "py_set py_hash xs = foldl (set_add py_hash) [] xs"

definition set_eq ::
    "(tuple_item list \<Rightarrow> 'h) \<Rightarrow> wrapped_element list \<Rightarrow> wrapped_element list \<Rightarrow> bool" where
  "set_eq py_hash v w = (length v = length w \<and> list_all (set_contains py_hash w) v)"

definition set_ne ::
    "(tuple_item list \<Rightarrow> 'h) \<Rightarrow> wrapped_element list \<Rightarrow> wrapped_element list \<Rightarrow> bool" where
  "set_ne py_hash v w = (\<not> set_eq py_hash v w)"

text \<open>
  What a wrapper is to a Python set: its hash together with what \<open>__eq__\<close> reads. Two
  wrappers are one member of a set exactly when these agree. The content of a wrapper is
  what \<open>__eq__\<close> alone reads: the attribute mapping and the text.
\<close>

definition wrapper_content :: "wrapped_element \<Rightarrow> (string \<rightharpoonup> string) \<times> string option" where
  "wrapper_content w = (map_of (elem_attrib (element w)), elem_text (element w))"

definition set_member ::
    "(tuple_item list \<Rightarrow> 'h) \<Rightarrow> wrapped_element \<Rightarrow> 'h \<times> (string \<rightharpoonup> string) \<times> string option" where
  "set_member py_hash w = (WrappedElement_hash py_hash w, wrapper_content w)"

subsection \<open>The comparison (\<open>XMLCompare._compare\<close>)\<close>

text \<open>
  A path map is the \<open>paths\<close> dictionary: translated path to the list of wrappers. A
  diff entry is the inner dictionary with the keys \<open>'root1'\<close> and \<open>'root2'\<close>; the diff
  report is \<open>diff_items\<close>. The key sets are lists without repetition; the three loops
  run over them in the order of the dictionaries (Python leaves the order of a set
  open; the result does not depend on it, since no key is written twice).
\<close>

type_synonym path_map = "(string \<times> wrapped_element list) list"

type_synonym diff_entry = "(string \<times> wrapped_element list) list"

type_synonym diff_report = "(string \<times> diff_entry) list"

text \<open>The first two loops: \<open>self.diff_items[key] = {label: paths[key]}\<close>.\<close>

fun compare_only ::
    "string \<Rightarrow> path_map \<Rightarrow> string list \<Rightarrow> diff_report \<Rightarrow> error + diff_report" where
  "compare_only label pm [] items = Inr items"
| "compare_only label pm (key # keys) items =
     (case map_of pm key of
        None \<Rightarrow> Inl (KeyError key)
      | Some ws \<Rightarrow>
          compare_only label pm keys (AList.update key [(label, ws)] items))"

text \<open>The third loop, over the shared keys.\<close>

fun compare_shared ::
    "(tuple_item list \<Rightarrow> 'h) \<Rightarrow> path_map \<Rightarrow> path_map \<Rightarrow> string list \<Rightarrow> diff_report
      \<Rightarrow> error + diff_report" where
  "compare_shared py_hash paths1 paths2 [] items = Inr items"
| "compare_shared py_hash paths1 paths2 (key # keys) items =
     (case map_of paths1 key of
        None \<Rightarrow> Inl (KeyError key)
      | Some ws1 \<Rightarrow>
         (case map_of paths2 key of
            None \<Rightarrow> Inl (KeyError key)
          | Some ws2 \<Rightarrow>
              if set_ne py_hash (py_set py_hash ws1) (py_set py_hash ws2)
              then compare_shared py_hash paths1 paths2 keys
                     (AList.update key [(''root1'', ws1), (''root2'', ws2)] items)
              else compare_shared py_hash paths1 paths2 keys items))"

definition XMLCompare_compare ::
    "(tuple_item list \<Rightarrow> 'h) \<Rightarrow> path_map \<Rightarrow> path_map \<Rightarrow> diff_report \<Rightarrow> error + diff_report" where
  "XMLCompare_compare py_hash paths1 paths2 items =
     (let paths1_set = remdups (map fst paths1);
          paths2_set = remdups (map fst paths2)
      in case compare_only ''root1'' paths1
                [key \<leftarrow> paths1_set. key \<notin> set paths2_set] items of
           Inl e \<Rightarrow> Inl e
         | Inr diff_items1 \<Rightarrow>
            (case compare_only ''root2'' paths2
                    [key \<leftarrow> paths2_set. key \<notin> set paths1_set] diff_items1 of
               Inl e \<Rightarrow> Inl e
             | Inr diff_items2 \<Rightarrow>
                 compare_shared py_hash paths1 paths2
                   [key \<leftarrow> paths1_set. key \<in> set paths2_set] diff_items2))"

subsection \<open>The tree as the program walks it\<close>

text \<open>
  \<open>root.iter()\<close> yields the elements in document order, each parent before its
  children. For every element the program asks \<open>lxml\<close> for its raw structural path,
  \<open>getpath(elem)\<close>, and for that of its parent. \<open>getpath\<close> is the parent's path followed
  by one step: \<open>/tag\<close> when no sibling has the same tag, \<open>/tag[i]\<close> otherwise, where
  \<open>i\<close> counts the siblings of that tag from 1. The root's path is \<open>/tag\<close>.
\<close>

text \<open>\<open>str(n)\<close> for a natural number: its decimal digits.\<close>

function str_of_nat :: "nat \<Rightarrow> string" where
  "str_of_nat n =
     (if n < 10 then [char_of (48 + n)]
      else str_of_nat (n div 10) @ [char_of (48 + n mod 10)])"
  by pat_completeness auto
termination
  by (relation "measure id") auto

declare str_of_nat.simps [simp del]

text \<open>The step of the \<open>i\<close>-th child among its siblings.\<close>

definition path_segment :: "element list \<Rightarrow> nat \<Rightarrow> string" where
  "path_segment siblings i =
     (let t = elem_tag (siblings ! i);
          same = length [c \<leftarrow> siblings. elem_tag c = t];
          occur = length [c \<leftarrow> take i siblings. elem_tag c = t]
      in [CHR ''/''] @ t @
         (if 1 < same then ''['' @ str_of_nat (occur + 1) @ '']'' else []))"

definition child_segments :: "element list \<Rightarrow> string list" where
  "child_segments siblings = map (path_segment siblings) [0..<length siblings]"

text \<open>
  One visit is the parent's raw path (\<open>None\<close> for the root, whose \<open>getparent()\<close> is
  \<open>None\<close>), the element's raw path and the element.
\<close>

function iter_from ::
    "string option \<Rightarrow> string \<Rightarrow> element \<Rightarrow> (string option \<times> string \<times> element) list" where
  "iter_from parent path (Element t a x cs) =
     (parent, path, Element t a x cs)
       # concat (map (\<lambda>(seg, c). iter_from (Some path) (path @ seg) c)
                  (zip (child_segments cs) cs))"
  by pat_completeness auto
termination
proof (relation "measure (\<lambda>(parent, path, elem). size elem)")
  show "wf (measure (\<lambda>(parent :: string option, path :: string, elem :: element). size elem))"
    by simp
next
  fix parent :: "string option" and path t :: string and a :: "(string \<times> string) list"
    and x :: "string option" and cs :: "element list" and sc :: "string \<times> element"
    and seg :: string and c :: element
  assume "sc \<in> set (zip (child_segments cs) cs)" and "(seg, c) = sc"
  then have "c \<in> set cs"
    by (auto dest: set_zip_rightD)
  then have "size c \<le> size_list size cs"
    by (rule size_list_estimation') simp
  then show "((Some path, path @ seg, c), (parent, path, Element t a x cs))
      \<in> measure (\<lambda>(parent, path, elem). size elem)"
    by simp
qed

definition tree_iter :: "element \<Rightarrow> (string option \<times> string \<times> element) list" where
  "tree_iter tree = iter_from None ([CHR ''/''] @ elem_tag tree) tree"

subsection \<open>\<open>XMLUniquePath\<close>\<close>

text \<open>
  The object: the tree, the two settings, the path map \<open>paths\<close> and the translation
  table. The fields that Python writes with a leading underscore carry the prefix \<open>p_\<close>.
\<close>

record XMLUniquePath =
  root :: element
  p_special_attribs :: "string list"
  p_max_text_len :: int
  paths :: path_map
  p_trans_table :: trans_table

text \<open>Step 8: append the wrapper to the list under the path, or start a new list.\<close>

definition paths_add :: "path_map \<Rightarrow> string \<Rightarrow> wrapped_element \<Rightarrow> path_map" where
  "paths_add pm tp w =
     (case map_of pm tp of
        Some ws \<Rightarrow> AList.update tp (ws @ [w]) pm
      | None \<Rightarrow> AList.update tp [w] pm)"

text \<open>The body of the loop for one element: steps 1 to 8.\<close>

definition process_elem ::
    "XMLUniquePath \<Rightarrow> string option \<times> string \<times> element \<Rightarrow> error + XMLUniquePath" where
  "process_elem self visit =
     (case visit of (parent, path, elem) \<Rightarrow>
        (case replace_trans (p_trans_table self) (case parent of None \<Rightarrow> [] | Some pp \<Rightarrow> pp) of
           Inl e \<Rightarrow> Inl e
         | Inr parent_path \<Rightarrow>
             (let tp = translated_path (p_special_attribs self) (p_max_text_len self)
                         parent_path elem
              in Inr (self\<lparr>p_trans_table := AList.update path tp (p_trans_table self),
                           paths := paths_add (paths self) tp (WrappedElement elem)\<rparr>))))"

fun process_elems ::
    "XMLUniquePath \<Rightarrow> (string option \<times> string \<times> element) list \<Rightarrow> error + XMLUniquePath" where
  "process_elems self [] = Inr self"
| "process_elems self (visit # visits) =
     (case process_elem self visit of
        Inl e \<Rightarrow> Inl e
      | Inr self' \<Rightarrow> process_elems self' visits)"

definition create_path_tree :: "XMLUniquePath \<Rightarrow> error + XMLUniquePath" where
  "create_path_tree self =
     process_elems (self\<lparr>paths := [], p_trans_table := []\<rparr>) (tree_iter (root self))"

definition XMLUniquePath_init :: "element \<Rightarrow> string list \<Rightarrow> int \<Rightarrow> error + XMLUniquePath" where
  "XMLUniquePath_init tree special_attribs max_text_len =
     create_path_tree
       \<lparr>root = tree, p_special_attribs = special_attribs, p_max_text_len = max_text_len,
        paths = [], p_trans_table = []\<rparr>"

text \<open>
  The synthetic path of every node as the specification defines it, without raw paths
  and without a table: the synthetic path of the parent (the empty string above the
  root), a slash, the tag and the sanitized fragment. The nodes are listed in document
  order, each with its synthetic path.
\<close>

fun synthetic_nodes :: "string list \<Rightarrow> int \<Rightarrow> string \<Rightarrow> element \<Rightarrow> (string \<times> element) list" where
  "synthetic_nodes sa mtl parent_path (Element t a x cs) =
     (translated_path sa mtl parent_path (Element t a x cs), Element t a x cs)
       # concat (map (synthetic_nodes sa mtl
                        (translated_path sa mtl parent_path (Element t a x cs))) cs)"

text \<open>Step 8 for a list of nodes with their synthetic paths.\<close>

definition add_nodes :: "path_map \<Rightarrow> (string \<times> element) list \<Rightarrow> path_map" where
  "add_nodes pm nodes = foldl (\<lambda>pm (tp, e). paths_add pm tp (WrappedElement e)) pm nodes"

subsection \<open>The path map of a tree\<close>

text \<open>The wrappers of the nodes with the synthetic path \<open>k\<close>, in document order.\<close>

definition nodes_at :: "string \<Rightarrow> (string \<times> element) list \<Rightarrow> wrapped_element list" where
  "nodes_at k nodes = map (\<lambda>(tp, e). WrappedElement e) [(tp, e) \<leftarrow> nodes. tp = k]"

subsection \<open>\<open>XMLCompare\<close>\<close>

text \<open>
  The constructor sets \<open>diff_items\<close> to the empty dictionary, builds the two path maps
  with the same settings and runs \<open>_compare\<close>. \<open>the_same\<close> is
  \<open>len(self.diff_items) == 0\<close>.
\<close>

record XMLCompare =
  diff_items :: diff_report
  p_paths1 :: XMLUniquePath
  p_paths2 :: XMLUniquePath

definition XMLCompare_init ::
    "(tuple_item list \<Rightarrow> 'h) \<Rightarrow> element \<Rightarrow> element \<Rightarrow> string list \<Rightarrow> int \<Rightarrow> error + XMLCompare" where
  "XMLCompare_init py_hash root1 root2 special_attribs max_text_len =
     (case XMLUniquePath_init root1 special_attribs max_text_len of
        Inl e \<Rightarrow> Inl e
      | Inr paths1 \<Rightarrow>
         (case XMLUniquePath_init root2 special_attribs max_text_len of
            Inl e \<Rightarrow> Inl e
          | Inr paths2 \<Rightarrow>
             (case XMLCompare_compare py_hash (paths paths1) (paths paths2) [] of
                Inl e \<Rightarrow> Inl e
              | Inr d \<Rightarrow> Inr \<lparr>diff_items = d, p_paths1 = paths1, p_paths2 = paths2\<rparr>)))"

definition the_same :: "XMLCompare \<Rightarrow> bool" where
  "the_same self = (length (diff_items self) = 0)"

subsection \<open>Reordering siblings\<close>

text \<open>
  \<open>reordered e e'\<close>: the tree \<open>e'\<close> is the tree \<open>e\<close> with the children of any of its
  nodes put in another order (a permutation at every level; tags, attributes and texts
  stay). \<open>node_data\<close> is what a node gives to the path map: its synthetic path and what
  its wrapper reads, the attributes in their order and the text.
\<close>

inductive reordered :: "element \<Rightarrow> element \<Rightarrow> bool" where
  siblings: "list_all2 reordered cs ds \<Longrightarrow> mset ds' = mset ds \<Longrightarrow>
     reordered (Element t a x cs) (Element t a x ds')"

definition node_data :: "string \<times> element \<Rightarrow> string \<times> (string \<times> string) list \<times> string option" where
  "node_data n = (fst n, elem_attrib (snd n), elem_text (snd n))"

text \<open>What a wrapper reads of its element: the attributes in their order and the text.\<close>

definition wrapper_data :: "wrapped_element \<Rightarrow> (string \<times> string) list \<times> string option" where
  "wrapper_data w = (elem_attrib (element w), elem_text (element w))"

section \<open>Properties\<close>

text \<open>
  The facts proved about the definitions above, grouped as the definitions are.
\<close>

subsection \<open>Facts about the string operations\<close>

lemma str_replace_char_empty:
  "str_replace s [c] [] = filter (\<lambda>x. x \<noteq> c) s"
proof (induction s)
  case Nil
  show ?case by (simp add: str_replace.simps)
next
  case (Cons x xs)
  show ?case
  proof (cases "x = c")
    case True
    then show ?thesis using Cons by (subst str_replace.simps) simp
  next
    case False
    then show ?thesis using Cons by (subst str_replace.simps) simp
  qed
qed

lemma sanitize_filter:
  "sanitize s = filter (\<lambda>x. x \<noteq> CHR 0x0A \<and> x \<noteq> CHR ''/'') s"
  by (simp add: sanitize_def str_replace_char_empty conj_commute)

lemma str_replace_self: "s \<noteq> [] \<Longrightarrow> str_replace s s new = new"
  by (subst str_replace.simps, subst str_replace.simps) simp

lemma str_rfind_lower: "- 1 \<le> str_rfind s c"
  by (induction s) (auto simp: Let_def)

subsection \<open>The fragment: truncation\<close>

text \<open>
  C7. For a configured maximum \<open>N \<ge> 1\<close> and a sanitized fragment strictly longer than
  \<open>N\<close>, the fragment that enters the translated path is the first \<open>N - 1\<close> characters
  of the sanitized fragment, and it has exactly \<open>N - 1\<close> characters.
\<close>

theorem fragment_truncated_to_max_minus_one:
  assumes "1 \<le> N"
    and "N < int (length (sanitize (unique_str_raw special_attribs elem)))"
  shows "unique_str special_attribs N elem =
           take (nat (N - 1)) (sanitize (unique_str_raw special_attribs elem))
       \<and> int (length (unique_str special_attribs N elem)) = N - 1
       \<and> translated_path special_attribs N parent_path elem =
           parent_path @ [CHR ''/''] @ elem_tag elem @
           take (nat (N - 1)) (sanitize (unique_str_raw special_attribs elem))"
  using assms
  by (simp add: unique_str_def limit_len_def str_slice_to_def translated_path_def)

theorem fragment_truncated_witness:
  "unique_str [] 3 (Element ''a'' [] (Some ''hello'') []) = ''he''
   \<and> translated_path [] 3 ''/r'' (Element ''a'' [] (Some ''hello'') []) = ''/r/ahe''"
  using fragment_truncated_to_max_minus_one
    [of 3 "[]" "Element ''a'' [] (Some ''hello'') []" "''/r''"]
  by (simp add: sanitize_filter unique_str_raw_def)

text \<open>
  C10. A sanitized fragment of at most \<open>N\<close> characters enters the translated path
  unchanged, so a fragment of exactly \<open>N\<close> characters stays whole; only a longer one is
  cut. A text of \<open>n\<close> characters under the maximum \<open>n\<close> gives a fragment of length
  \<open>n\<close>, a text of \<open>n + 1\<close> characters gives one of length \<open>n - 1\<close>.
\<close>

theorem fragment_within_max_unchanged:
  "(int (length (sanitize (unique_str_raw special_attribs elem))) \<le> N \<longrightarrow>
      unique_str special_attribs N elem = sanitize (unique_str_raw special_attribs elem)
      \<and> translated_path special_attribs N parent_path elem =
          parent_path @ [CHR ''/''] @ elem_tag elem @
          sanitize (unique_str_raw special_attribs elem))
   \<and> unique_str [] (int n) (Element t [] (Some (replicate n CHR ''a'')) [])
       = replicate n CHR ''a''
   \<and> (1 \<le> n \<longrightarrow>
       unique_str [] (int n) (Element t [] (Some (replicate (Suc n) CHR ''a'')) [])
       = replicate (n - 1) CHR ''a'')"
proof -
  have keep: "sanitize (replicate k CHR ''a'') = replicate k CHR ''a''" for k
    by (simp add: sanitize_filter)
  have raw: "unique_str_raw [] (Element t [] (Some (replicate k CHR ''a'')) [])
      = replicate k CHR ''a''" for k
    by (cases k) (simp_all add: unique_str_raw_def)
  have whole: "unique_str [] (int k) (Element t [] (Some (replicate k CHR ''a'')) [])
      = replicate k CHR ''a''" for k
    unfolding unique_str_def raw keep by (simp add: limit_len_def)
  have cut: "unique_str [] (int k) (Element t [] (Some (replicate (Suc k) CHR ''a'')) [])
      = replicate (k - 1) CHR ''a''" if "1 \<le> k" for k
  proof -
    have "nat (int k - 1) = k - 1"
      using that by simp
    moreover have "min (Suc k) (k - 1) = k - 1"
      by simp
    ultimately show ?thesis
      unfolding unique_str_def raw keep
      by (simp add: limit_len_def str_slice_to_def del: replicate_Suc)
  qed
  have short: "int (length (sanitize (unique_str_raw special_attribs elem))) \<le> N \<longrightarrow>
      unique_str special_attribs N elem = sanitize (unique_str_raw special_attribs elem)
      \<and> translated_path special_attribs N parent_path elem =
          parent_path @ [CHR ''/''] @ elem_tag elem @
          sanitize (unique_str_raw special_attribs elem)"
    by (simp add: unique_str_def limit_len_def translated_path_def)
  from short whole [of n] cut [of n] show ?thesis
    by blast
qed

theorem fragment_within_max_witness:
  "unique_str [] 5 (Element ''a'' [] (Some ''hello'') []) = ''hello''
   \<and> translated_path [] 5 ''/r'' (Element ''a'' [] (Some ''hello'') []) = ''/r/ahello''
   \<and> unique_str [] 4 (Element ''a'' [] (Some ''aaaa'') []) = ''aaaa''
   \<and> unique_str [] 4 (Element ''a'' [] (Some ''aaaaa'') []) = ''aaa''"
  using fragment_within_max_unchanged
    [of "[]" "Element ''a'' [] (Some ''hello'') []" 5 "''/r''" 4 "''a''"]
  by (simp add: sanitize_filter unique_str_raw_def replicate_def numeral_eq_Suc)

subsection \<open>The fragment: attributes and text\<close>

lemma scan_special_attribs_no_match:
  "\<forall>key \<in> set special_attribs. map_of attrib key = None \<Longrightarrow>
   scan_special_attribs special_attribs attrib = []"
  by (induction special_attribs) auto

lemma scan_special_attribs_first_match:
  "\<forall>key \<in> set before. map_of attrib key = None \<Longrightarrow> map_of attrib key = Some v \<Longrightarrow>
   scan_special_attribs (before @ key # after) attrib = v"
  by (induction before) auto

lemma unique_str_raw_first_match:
  assumes "\<forall>k \<in> set before. map_of (elem_attrib elem) k = None"
    and "map_of (elem_attrib elem) key = Some v" and "v \<noteq> []"
  shows "unique_str_raw (before @ key # after) elem = v"
  using assms by (simp add: unique_str_raw_def scan_special_attribs_first_match)

lemma unique_str_raw_no_match:
  assumes "\<forall>k \<in> set special_attribs. map_of (elem_attrib elem) k = None"
  shows "unique_str_raw special_attribs elem =
           (case elem_text elem of None \<Rightarrow> [] | Some t \<Rightarrow> t)"
  using assms
  by (cases "elem_text elem") (auto simp: unique_str_raw_def scan_special_attribs_no_match)

text \<open>
  C4. The fragment of an element whose first matching preferred attribute has the empty
  value: the scan stops at that attribute with the value \<open>''\<close>, and step 2, which
  tests \<open>unique_str == ''\<close> and not whether an attribute matched, takes the text.
  Here \<open><a name="">hello</a>\<close> with \<open>special_attribs = ['name']\<close> gets the fragment
  \<open>hello\<close>, although \<open>name\<close> is present on the node.
\<close>

theorem empty_attribute_value_takes_text:
  "map_of (elem_attrib (Element ''a'' [(''name'', '''')] (Some ''hello'') [])) ''name''
     = Some ''''
   \<and> scan_special_attribs [''name'']
       (elem_attrib (Element ''a'' [(''name'', '''')] (Some ''hello'') [])) = ''''
   \<and> unique_str_raw [''name''] (Element ''a'' [(''name'', '''')] (Some ''hello'') [])
       = ''hello''"
  by (simp add: unique_str_raw_def)

subsection \<open>The translation lookup (\<open>_replace_trans\<close>)\<close>

lemma replace_trans_loop_candidates:
  "new_path \<noteq> [] \<Longrightarrow>
   replace_trans_loop tbl path new_path =
     (case find (\<lambda>c. map_of tbl c \<noteq> None) (strip_candidates new_path) of
        None \<Rightarrow> Inr path
      | Some c \<Rightarrow> replace_found tbl path c)"
proof (induction new_path rule: strip_candidates.induct)
  case (1 p)
  show ?case
  proof (cases "str_rfind p CHR ''/'' \<le> 0")
    case True
    with "1.prems" show ?thesis
      by (subst replace_trans_loop.simps, subst strip_candidates.simps) simp
  next
    case False
    then have cut: "str_slice_to p (str_rfind p CHR ''/'') \<noteq> []"
      using "1.prems" str_rfind_less [of p "CHR ''/''"]
      by (auto simp: str_slice_to_def)
    from "1.IH" [OF "1.prems" False cut] False "1.prems" show ?thesis
      by (subst replace_trans_loop.simps, subst strip_candidates.simps) (simp add: Let_def)
  qed
qed

lemma replace_trans_exact:
  assumes "map_of tbl path = Some t"
  shows "replace_trans tbl path = Inr t"
proof -
  from assms have nonempty: "tbl \<noteq> []"
    by auto
  have found: "replace_found tbl path path = Inr t"
  proof (cases "path = []")
    case True
    with assms show ?thesis
      by (simp add: replace_found_def str_replace.simps)
  next
    case False
    with assms show ?thesis
      by (simp add: replace_found_def str_replace_self)
  qed
  have "replace_trans_loop tbl path path = replace_found tbl path path"
    using assms by (subst replace_trans_loop.simps) simp
  with nonempty found show ?thesis
    by (simp add: replace_trans_def)
qed

text \<open>
  The empty path with a table that is not empty and has no entry for it: the loop is
  skipped and the last line raises \<open>KeyError\<close>. The program passes the empty path only
  for the root, which is processed first, when the table is still empty.
\<close>

lemma replace_trans_empty_path_KeyError:
  "replace_trans [(''/a'', ''/b'')] [] = Inl (KeyError [])"
  by (simp add: replace_trans_def replace_trans_loop.simps replace_found_def)

text \<open>
  C8. For a raw path (a string that is not empty; the empty string is also covered when
  the table is empty) the lookup tries the path and then each string left by cutting off
  the last \<open>/segment\<close>; the first one that is a key of the table is replaced in the path
  by its translation. If none of them is a key, in particular when the table is empty,
  the path is returned as it is. If the path itself is a key, the result is the
  translation recorded for it.
\<close>

theorem replace_trans_strips_segments:
  "(path \<noteq> [] \<or> tbl = [] \<longrightarrow>
      replace_trans tbl path =
        (case find (\<lambda>c. map_of tbl c \<noteq> None) (strip_candidates path) of
           None \<Rightarrow> Inr path
         | Some c \<Rightarrow> Inr (str_replace path c (the (map_of tbl c)))))
   \<and> (path \<noteq> [] \<or> tbl = [] \<longrightarrow>
        (\<forall>c \<in> set (strip_candidates path). map_of tbl c = None) \<longrightarrow>
        replace_trans tbl path = Inr path)
   \<and> (map_of tbl path = Some t \<longrightarrow> replace_trans tbl path = Inr t)"
proof -
  have general: "replace_trans tbl path =
        (case find (\<lambda>c. map_of tbl c \<noteq> None) (strip_candidates path) of
           None \<Rightarrow> Inr path
         | Some c \<Rightarrow> Inr (str_replace path c (the (map_of tbl c))))"
    if "path \<noteq> [] \<or> tbl = []"
  proof (cases "tbl = []")
    case True
    then have "find (\<lambda>c. map_of tbl c \<noteq> None) (strip_candidates path) = None"
      by (simp add: find_None_iff)
    with True show ?thesis
      by (simp add: replace_trans_def)
  next
    case False
    with that have "path \<noteq> []"
      by simp
    then have "replace_trans tbl path =
        (case find (\<lambda>c. map_of tbl c \<noteq> None) (strip_candidates path) of
           None \<Rightarrow> Inr path
         | Some c \<Rightarrow> replace_found tbl path c)"
      using False by (simp add: replace_trans_def replace_trans_loop_candidates)
    then show ?thesis
      by (auto simp: replace_found_def split: option.splits dest: find_Some_iff [THEN iffD1])
  qed
  have none: "replace_trans tbl path = Inr path"
    if "path \<noteq> [] \<or> tbl = []"
      and "\<forall>c \<in> set (strip_candidates path). map_of tbl c = None"
  proof -
    from that(2) have "find (\<lambda>c. map_of tbl c \<noteq> None) (strip_candidates path) = None"
      by (simp add: find_None_iff)
    with general [OF that(1)] show ?thesis
      by simp
  qed
  from general none replace_trans_exact show ?thesis
    by blast
qed

theorem replace_trans_strips_segments_witness:
  "replace_trans [(''/q'', ''/qX'')] ''/r/a[2]/b'' = Inr ''/r/a[2]/b''
   \<and> replace_trans [(''/r'', ''/rX''), (''/r/a[2]'', ''/rX/aY'')] ''/r/a[2]/b''
       = Inr ''/rX/aY/b''
   \<and> replace_trans [(''/r'', ''/rX''), (''/r/a[2]'', ''/rX/aY'')] ''/r/a[2]''
       = Inr ''/rX/aY''"
proof -
  have cands: "strip_candidates ''/r/a[2]/b'' = [''/r/a[2]/b'', ''/r/a[2]'', ''/r'']"
    by (simp add: strip_candidates.simps str_slice_to_def)
  have repl: "str_replace ''/r/a[2]/b'' ''/r/a[2]'' ''/rX/aY'' = ''/rX/aY/b''"
    by (simp add: str_replace.simps)
  have unchanged: "replace_trans [(''/q'', ''/qX'')] ''/r/a[2]/b'' = Inr ''/r/a[2]/b''"
    using replace_trans_strips_segments
        [of "''/r/a[2]/b''" "[(''/q'', ''/qX'')]" "[]", THEN conjunct2, THEN conjunct1]
    by (simp add: cands)
  have stripped: "replace_trans [(''/r'', ''/rX''), (''/r/a[2]'', ''/rX/aY'')] ''/r/a[2]/b''
       = Inr ''/rX/aY/b''"
    using replace_trans_strips_segments
        [of "''/r/a[2]/b''" "[(''/r'', ''/rX''), (''/r/a[2]'', ''/rX/aY'')]" "[]",
          THEN conjunct1]
    by (simp add: cands repl)
  have exact: "replace_trans [(''/r'', ''/rX''), (''/r/a[2]'', ''/rX/aY'')] ''/r/a[2]''
       = Inr ''/rX/aY''"
    using replace_trans_strips_segments
        [of "''/r/a[2]''" "[(''/r'', ''/rX''), (''/r/a[2]'', ''/rX/aY'')]" "''/rX/aY''",
          THEN conjunct2, THEN conjunct2]
    by simp
  from unchanged stripped exact show ?thesis
    by simp
qed

subsection \<open>Facts about wrappers and their sets\<close>

lemma attrib_eq_map_of: "attrib_eq a b \<longleftrightarrow> map_of a = map_of b"
proof
  assume eq: "attrib_eq a b"
  show "map_of a = map_of b"
  proof
    fix k
    show "map_of a k = map_of b k"
    proof (cases "k \<in> fst ` set a \<union> fst ` set b")
      case True
      with eq show ?thesis
        by (auto simp: attrib_eq_def list_all_iff)
    next
      case False
      then have "map_of a k = None" and "map_of b k = None"
        by (simp_all add: map_of_eq_None_iff)
      then show ?thesis
        by simp
    qed
  qed
next
  assume "map_of a = map_of b"
  then show "attrib_eq a b"
    by (simp add: attrib_eq_def list_all_iff)
qed

lemma WrappedElement_eq_content:
  "WrappedElement_eq a b \<longleftrightarrow> wrapper_content a = wrapper_content b"
  by (simp add: WrappedElement_eq_def wrapper_content_def attrib_eq_map_of)

lemma WrappedElement_eq_refl: "WrappedElement_eq a a"
  by (simp add: WrappedElement_eq_content)

lemma WrappedElement_eq_sym: "WrappedElement_eq a b \<Longrightarrow> WrappedElement_eq b a"
  by (simp add: WrappedElement_eq_content)

lemma WrappedElement_eq_trans:
  "WrappedElement_eq a b \<Longrightarrow> WrappedElement_eq b c \<Longrightarrow> WrappedElement_eq a c"
  by (simp add: WrappedElement_eq_content)

lemma hash_tuple_eq_iff:
  "hash_tuple a = hash_tuple b \<longleftrightarrow>
     elem_attrib (element a) = elem_attrib (element b)
     \<and> elem_text (element a) = elem_text (element b)"
proof -
  have inj: "inj (\<lambda>(k, v). AttribItem k v)"
    by (auto simp: inj_on_def)
  show ?thesis
    by (auto simp: hash_tuple_def inj_map_eq_map [OF inj])
qed

lemma same_attrib_order_same_hash:
  assumes "WrappedElement_eq a b"
    and "elem_attrib (element a) = elem_attrib (element b)"
  shows "WrappedElement_hash py_hash a = WrappedElement_hash py_hash b"
proof -
  from assms have "hash_tuple a = hash_tuple b"
    by (simp add: hash_tuple_eq_iff WrappedElement_eq_def)
  then show ?thesis
    by (simp add: WrappedElement_hash_def)
qed

lemma same_key_member: "same_key py_hash a b \<longleftrightarrow> set_member py_hash a = set_member py_hash b"
  by (simp add: same_key_def set_member_def WrappedElement_eq_content)

lemma set_contains_member:
  "set_contains py_hash so key \<longleftrightarrow> set_member py_hash key \<in> set_member py_hash ` set so"
proof -
  have "set_contains py_hash so key \<longleftrightarrow>
      (\<exists>entry \<in> set so. set_member py_hash entry = set_member py_hash key)"
    by (simp add: set_contains_def list_ex_iff same_key_member)
  also have "\<dots> \<longleftrightarrow> set_member py_hash key \<in> set_member py_hash ` set so"
    by (metis image_iff)
  finally show ?thesis .
qed

lemma set_add_members:
  "set_member py_hash ` set (set_add py_hash so key)
     = insert (set_member py_hash key) (set_member py_hash ` set so)"
  by (auto simp: set_add_def set_contains_member)

lemma set_add_distinct:
  "distinct (map (set_member py_hash) so) \<Longrightarrow>
   distinct (map (set_member py_hash) (set_add py_hash so key))"
  by (auto simp: set_add_def set_contains_member)

lemma foldl_set_add:
  "distinct (map (set_member py_hash) so) \<Longrightarrow>
   distinct (map (set_member py_hash) (foldl (set_add py_hash) so xs))
   \<and> set_member py_hash ` set (foldl (set_add py_hash) so xs)
       = set_member py_hash ` set so \<union> set_member py_hash ` set xs"
proof (induction xs arbitrary: so)
  case Nil
  then show ?case by simp
next
  case (Cons x xs)
  from Cons.IH [OF set_add_distinct [OF Cons.prems, of x]] show ?case
    by (simp add: set_add_members)
qed

lemma py_set_distinct: "distinct (map (set_member py_hash) (py_set py_hash xs))"
  using foldl_set_add [of py_hash "[]" xs] by (simp add: py_set_def)

lemma py_set_members:
  "set_member py_hash ` set (py_set py_hash xs) = set_member py_hash ` set xs"
  using foldl_set_add [of py_hash "[]" xs] by (simp add: py_set_def)

lemma set_eq_members:
  assumes "distinct (map (set_member py_hash) v)" and "distinct (map (set_member py_hash) w)"
  shows "set_eq py_hash v w \<longleftrightarrow> set_member py_hash ` set v = set_member py_hash ` set w"
proof -
  let ?V = "set_member py_hash ` set v" and ?W = "set_member py_hash ` set w"
  have cv: "card ?V = length v"
    using distinct_card [OF assms(1)] by simp
  have cw: "card ?W = length w"
    using distinct_card [OF assms(2)] by simp
  have sub: "list_all (set_contains py_hash w) v \<longleftrightarrow> ?V \<subseteq> ?W"
    by (auto simp: list_all_iff set_contains_member)
  show ?thesis
  proof
    assume "set_eq py_hash v w"
    then have "length v = length w" and "?V \<subseteq> ?W"
      by (simp_all add: set_eq_def sub)
    then show "?V = ?W"
      using cv cw by (simp add: card_subset_eq)
  next
    assume "?V = ?W"
    then show "set_eq py_hash v w"
      using cv cw by (simp add: set_eq_def sub)
  qed
qed

lemma py_set_eq_members:
  "set_eq py_hash (py_set py_hash xs) (py_set py_hash ys) \<longleftrightarrow>
     set_member py_hash ` set xs = set_member py_hash ` set ys"
  by (simp add: set_eq_members py_set_distinct py_set_members)

lemma py_set_ne_members:
  "set_ne py_hash (py_set py_hash xs) (py_set py_hash ys) \<longleftrightarrow>
     set_member py_hash ` set xs \<noteq> set_member py_hash ` set ys"
  by (simp add: set_ne_def py_set_eq_members)

text \<open>
  C5. \<open>__eq__\<close> is the equality of attribute mapping and text (lemma
  \<open>WrappedElement_eq_content\<close>), so it is reflexive, symmetric and transitive, and two
  equal wrappers whose attributes stand in the same order have the same hash (lemma
  \<open>same_attrib_order_same_hash\<close>). The wrappers of \<open><a x="1" y="2"/>\<close> and of
  \<open><a y="2" x="1"/>\<close> are equal, but the tuples handed to \<open>hash\<close> differ, so a hash
  that tells different tuples apart gives them different values.
\<close>

theorem equal_wrappers_different_hash_tuples:
  "WrappedElement_eq
     (WrappedElement (Element ''a'' [(''x'', ''1''), (''y'', ''2'')] None []))
     (WrappedElement (Element ''a'' [(''y'', ''2''), (''x'', ''1'')] None []))
   \<and> hash_tuple (WrappedElement (Element ''a'' [(''x'', ''1''), (''y'', ''2'')] None []))
       = [AttribItem ''x'' ''1'', AttribItem ''y'' ''2'', TextItem None]
   \<and> hash_tuple (WrappedElement (Element ''a'' [(''y'', ''2''), (''x'', ''1'')] None []))
       = [AttribItem ''y'' ''2'', AttribItem ''x'' ''1'', TextItem None]
   \<and> WrappedElement_hash (\<lambda>t. t)
         (WrappedElement (Element ''a'' [(''x'', ''1''), (''y'', ''2'')] None []))
       \<noteq> WrappedElement_hash (\<lambda>t. t)
         (WrappedElement (Element ''a'' [(''y'', ''2''), (''x'', ''1'')] None []))"
  by (simp add: WrappedElement_eq_def attrib_eq_def hash_tuple_def WrappedElement_hash_def)

subsection \<open>Facts about the comparison\<close>

lemma compare_only_result:
  "set keys \<subseteq> fst ` set pm \<Longrightarrow>
   \<exists>d. compare_only label pm keys items = Inr d
     \<and> (\<forall>k. map_of d k =
           (if k \<in> set keys then Some [(label, the (map_of pm k))]
            else map_of items k))"
proof (induction keys arbitrary: items)
  case Nil
  then show ?case by simp
next
  case (Cons key keys)
  from Cons.prems obtain ws where ws: "map_of pm key = Some ws"
    by (cases "map_of pm key") (auto simp: map_of_eq_None_iff)
  from Cons.prems have "set keys \<subseteq> fst ` set pm"
    by simp
  from Cons.IH [OF this, of "AList.update key [(label, ws)] items"]
  obtain d where d: "compare_only label pm keys
        (AList.update key [(label, ws)] items) = Inr d"
      "\<And>k. map_of d k =
           (if k \<in> set keys then Some [(label, the (map_of pm k))]
            else map_of (AList.update key [(label, ws)] items) k)"
    by blast
  show ?case
  proof (intro exI conjI allI)
    show "compare_only label pm (key # keys) items = Inr d"
      using ws d(1) by simp
  next
    fix k
    show "map_of d k =
           (if k \<in> set (key # keys) then Some [(label, the (map_of pm k))]
            else map_of items k)"
      using d(2) [of k] ws by (simp add: update_conv')
  qed
qed

lemma compare_shared_result:
  "set keys \<subseteq> fst ` set paths1 \<inter> fst ` set paths2 \<Longrightarrow>
   \<exists>d. compare_shared py_hash paths1 paths2 keys items = Inr d
     \<and> (\<forall>k. map_of d k =
           (if k \<in> set keys
               \<and> set_member py_hash ` set (the (map_of paths1 k))
                   \<noteq> set_member py_hash ` set (the (map_of paths2 k))
            then Some [(''root1'', the (map_of paths1 k)), (''root2'', the (map_of paths2 k))]
            else map_of items k))"
proof (induction keys arbitrary: items)
  case Nil
  then show ?case by simp
next
  case (Cons key keys)
  from Cons.prems obtain ws1 where ws1: "map_of paths1 key = Some ws1"
    by (cases "map_of paths1 key") (auto simp: map_of_eq_None_iff)
  from Cons.prems obtain ws2 where ws2: "map_of paths2 key = Some ws2"
    by (cases "map_of paths2 key") (auto simp: map_of_eq_None_iff)
  from Cons.prems have keys: "set keys \<subseteq> fst ` set paths1 \<inter> fst ` set paths2"
    by simp
  show ?case
  proof (cases "set_member py_hash ` set ws1 \<noteq> set_member py_hash ` set ws2")
    case True
    let ?d1 = "AList.update key [(''root1'', ws1), (''root2'', ws2)] items"
    from Cons.IH [OF keys, of ?d1]
    obtain d where d: "compare_shared py_hash paths1 paths2 keys ?d1 = Inr d"
      "\<And>k. map_of d k =
           (if k \<in> set keys
               \<and> set_member py_hash ` set (the (map_of paths1 k))
                   \<noteq> set_member py_hash ` set (the (map_of paths2 k))
            then Some [(''root1'', the (map_of paths1 k)), (''root2'', the (map_of paths2 k))]
            else map_of ?d1 k)"
      by blast
    show ?thesis
    proof (intro exI conjI allI)
      show "compare_shared py_hash paths1 paths2 (key # keys) items = Inr d"
        using ws1 ws2 True d(1) by (simp add: py_set_ne_members)
    next
      fix k
      show "map_of d k =
           (if k \<in> set (key # keys)
               \<and> set_member py_hash ` set (the (map_of paths1 k))
                   \<noteq> set_member py_hash ` set (the (map_of paths2 k))
            then Some [(''root1'', the (map_of paths1 k)), (''root2'', the (map_of paths2 k))]
            else map_of items k)"
        using d(2) [of k] ws1 ws2 True by (simp add: update_conv')
    qed
  next
    case False
    from Cons.IH [OF keys, of items]
    obtain d where d: "compare_shared py_hash paths1 paths2 keys items = Inr d"
      "\<And>k. map_of d k =
           (if k \<in> set keys
               \<and> set_member py_hash ` set (the (map_of paths1 k))
                   \<noteq> set_member py_hash ` set (the (map_of paths2 k))
            then Some [(''root1'', the (map_of paths1 k)), (''root2'', the (map_of paths2 k))]
            else map_of items k)"
      by blast
    show ?thesis
    proof (intro exI conjI allI)
      show "compare_shared py_hash paths1 paths2 (key # keys) items = Inr d"
        using ws1 ws2 False d(1) by (simp add: py_set_ne_members)
    next
      fix k
      show "map_of d k =
           (if k \<in> set (key # keys)
               \<and> set_member py_hash ` set (the (map_of paths1 k))
                   \<noteq> set_member py_hash ` set (the (map_of paths2 k))
            then Some [(''root1'', the (map_of paths1 k)), (''root2'', the (map_of paths2 k))]
            else map_of items k)"
        using d(2) [of k] ws1 ws2 False by (cases "k = key") simp_all
    qed
  qed
qed

text \<open>The whole comparison, entry by entry, from an empty report.\<close>

lemma XMLCompare_compare_result:
  "\<exists>d. XMLCompare_compare py_hash paths1 paths2 [] = Inr d
     \<and> (\<forall>k. map_of d k =
          (if k \<in> fst ` set paths1 \<and> k \<notin> fst ` set paths2
             then Some [(''root1'', the (map_of paths1 k))]
           else if k \<in> fst ` set paths2 \<and> k \<notin> fst ` set paths1
             then Some [(''root2'', the (map_of paths2 k))]
           else if k \<in> fst ` set paths1 \<and> k \<in> fst ` set paths2
               \<and> set_member py_hash ` set (the (map_of paths1 k))
                   \<noteq> set_member py_hash ` set (the (map_of paths2 k))
             then Some [(''root1'', the (map_of paths1 k)), (''root2'', the (map_of paths2 k))]
           else None))"
proof -
  let ?k1 = "remdups (map fst paths1)" and ?k2 = "remdups (map fst paths2)"
  have "set [key \<leftarrow> ?k1. key \<notin> set ?k2] \<subseteq> fst ` set paths1"
    by auto
  from compare_only_result [OF this, of "''root1''" "[]"]
  obtain d1 where d1: "compare_only ''root1'' paths1 [key \<leftarrow> ?k1. key \<notin> set ?k2] [] = Inr d1"
    "\<And>k. map_of d1 k =
       (if k \<in> set [key \<leftarrow> ?k1. key \<notin> set ?k2] then Some [(''root1'', the (map_of paths1 k))]
        else map_of [] k)"
    by blast
  have "set [key \<leftarrow> ?k2. key \<notin> set ?k1] \<subseteq> fst ` set paths2"
    by auto
  from compare_only_result [OF this, of "''root2''" d1]
  obtain d2 where d2: "compare_only ''root2'' paths2 [key \<leftarrow> ?k2. key \<notin> set ?k1] d1 = Inr d2"
    "\<And>k. map_of d2 k =
       (if k \<in> set [key \<leftarrow> ?k2. key \<notin> set ?k1] then Some [(''root2'', the (map_of paths2 k))]
        else map_of d1 k)"
    by blast
  have "set [key \<leftarrow> ?k1. key \<in> set ?k2] \<subseteq> fst ` set paths1 \<inter> fst ` set paths2"
    by auto
  from compare_shared_result [OF this, of py_hash d2]
  obtain d3 where d3:
    "compare_shared py_hash paths1 paths2 [key \<leftarrow> ?k1. key \<in> set ?k2] d2 = Inr d3"
    "\<And>k. map_of d3 k =
       (if k \<in> set [key \<leftarrow> ?k1. key \<in> set ?k2]
           \<and> set_member py_hash ` set (the (map_of paths1 k))
               \<noteq> set_member py_hash ` set (the (map_of paths2 k))
        then Some [(''root1'', the (map_of paths1 k)), (''root2'', the (map_of paths2 k))]
        else map_of d2 k)"
    by blast
  show ?thesis
  proof (intro exI conjI allI)
    show "XMLCompare_compare py_hash paths1 paths2 [] = Inr d3"
      using d1(1) d2(1) d3(1) by (simp add: XMLCompare_compare_def)
  next
    fix k
    show "map_of d3 k =
          (if k \<in> fst ` set paths1 \<and> k \<notin> fst ` set paths2
             then Some [(''root1'', the (map_of paths1 k))]
           else if k \<in> fst ` set paths2 \<and> k \<notin> fst ` set paths1
             then Some [(''root2'', the (map_of paths2 k))]
           else if k \<in> fst ` set paths1 \<and> k \<in> fst ` set paths2
               \<and> set_member py_hash ` set (the (map_of paths1 k))
                   \<noteq> set_member py_hash ` set (the (map_of paths2 k))
             then Some [(''root1'', the (map_of paths1 k)), (''root2'', the (map_of paths2 k))]
           else None)"
      unfolding d3(2) [of k] d2(2) [of k] d1(2) [of k] by auto
  qed
qed

text \<open>
  The keys of the report as the code computes them. For two path maps with key sets
  \<open>S1\<close> and \<open>S2\<close> the comparison returns a report whose keys are
  \<open>(S1 - S2) \<union> (S2 - S1)\<close> together with the shared keys under which the two Python
  sets differ, that is, have different members (a member being a wrapper up to hash and
  \<open>__eq__\<close>, lemma \<open>py_set_ne_members\<close>). A key of \<open>S1 - S2\<close> carries only the
  \<open>root1\<close> list, a key of \<open>S2 - S1\<close> only the \<open>root2\<close> list, and a shared key that is
  reported carries both.
\<close>

lemma compare_keys_by_members:
  "\<exists>d. XMLCompare_compare py_hash paths1 paths2 [] = Inr d
     \<and> fst ` set d =
         (fst ` set paths1 - fst ` set paths2) \<union> (fst ` set paths2 - fst ` set paths1)
         \<union> {k \<in> fst ` set paths1 \<inter> fst ` set paths2.
              set_member py_hash ` set (the (map_of paths1 k))
                \<noteq> set_member py_hash ` set (the (map_of paths2 k))}
     \<and> (\<forall>k \<in> fst ` set paths1 - fst ` set paths2.
           map_of d k = Some [(''root1'', the (map_of paths1 k))])
     \<and> (\<forall>k \<in> fst ` set paths2 - fst ` set paths1.
           map_of d k = Some [(''root2'', the (map_of paths2 k))])
     \<and> (\<forall>k \<in> fst ` set paths1 \<inter> fst ` set paths2.
           set_member py_hash ` set (the (map_of paths1 k))
             \<noteq> set_member py_hash ` set (the (map_of paths2 k)) \<longrightarrow>
           map_of d k =
             Some [(''root1'', the (map_of paths1 k)), (''root2'', the (map_of paths2 k))])"
proof -
  from XMLCompare_compare_result [of py_hash paths1 paths2]
  obtain d where run: "XMLCompare_compare py_hash paths1 paths2 [] = Inr d"
    and entry: "\<And>k. map_of d k =
          (if k \<in> fst ` set paths1 \<and> k \<notin> fst ` set paths2
             then Some [(''root1'', the (map_of paths1 k))]
           else if k \<in> fst ` set paths2 \<and> k \<notin> fst ` set paths1
             then Some [(''root2'', the (map_of paths2 k))]
           else if k \<in> fst ` set paths1 \<and> k \<in> fst ` set paths2
               \<and> set_member py_hash ` set (the (map_of paths1 k))
                   \<noteq> set_member py_hash ` set (the (map_of paths2 k))
             then Some [(''root1'', the (map_of paths1 k)), (''root2'', the (map_of paths2 k))]
           else None)"
    by blast
  have keys: "fst ` set d =
         (fst ` set paths1 - fst ` set paths2) \<union> (fst ` set paths2 - fst ` set paths1)
         \<union> {k \<in> fst ` set paths1 \<inter> fst ` set paths2.
              set_member py_hash ` set (the (map_of paths1 k))
                \<noteq> set_member py_hash ` set (the (map_of paths2 k))}"
  proof (rule set_eqI)
    fix k
    have "k \<in> fst ` set d \<longleftrightarrow> map_of d k \<noteq> None"
      by (simp add: map_of_eq_None_iff)
    then show "k \<in> fst ` set d \<longleftrightarrow>
        k \<in> (fst ` set paths1 - fst ` set paths2) \<union> (fst ` set paths2 - fst ` set paths1)
         \<union> {k \<in> fst ` set paths1 \<inter> fst ` set paths2.
              set_member py_hash ` set (the (map_of paths1 k))
                \<noteq> set_member py_hash ` set (the (map_of paths2 k))}"
      unfolding entry [of k] by (simp split: if_splits)
  qed
  have only1: "\<forall>k \<in> fst ` set paths1 - fst ` set paths2.
           map_of d k = Some [(''root1'', the (map_of paths1 k))]"
    by (simp add: entry)
  have only2: "\<forall>k \<in> fst ` set paths2 - fst ` set paths1.
           map_of d k = Some [(''root2'', the (map_of paths2 k))]"
    by (simp add: entry)
  have both: "\<forall>k \<in> fst ` set paths1 \<inter> fst ` set paths2.
           set_member py_hash ` set (the (map_of paths1 k))
             \<noteq> set_member py_hash ` set (the (map_of paths2 k)) \<longrightarrow>
           map_of d k =
             Some [(''root1'', the (map_of paths1 k)), (''root2'', the (map_of paths2 k))]"
    by (simp add: entry)
  from run keys only1 only2 both show ?thesis
    by blast
qed

lemma compare_keys_by_members_example:
  "\<exists>d. XMLCompare_compare (\<lambda>t. t)
          [(''/r'', [WrappedElement (Element ''r'' [] None [])]),
           (''/r/a'', [WrappedElement (Element ''a'' [] None [])])]
          [(''/r'', [WrappedElement (Element ''r'' [] (Some ''t'') [])]),
           (''/r/c'', [WrappedElement (Element ''c'' [] None [])])] [] = Inr d
     \<and> fst ` set d = {''/r/a'', ''/r/c'', ''/r''}
     \<and> map_of d ''/r/a'' = Some [(''root1'', [WrappedElement (Element ''a'' [] None [])])]
     \<and> map_of d ''/r/c'' = Some [(''root2'', [WrappedElement (Element ''c'' [] None [])])]
     \<and> map_of d ''/r'' = Some [(''root1'', [WrappedElement (Element ''r'' [] None [])]),
                               (''root2'', [WrappedElement (Element ''r'' [] (Some ''t'') [])])]"
proof -
  let ?p1 = "[(''/r'', [WrappedElement (Element ''r'' [] None [])]),
           (''/r/a'', [WrappedElement (Element ''a'' [] None [])])]"
  let ?p2 = "[(''/r'', [WrappedElement (Element ''r'' [] (Some ''t'') [])]),
           (''/r/c'', [WrappedElement (Element ''c'' [] None [])])]"
  have shared: "{k \<in> fst ` set ?p1 \<inter> fst ` set ?p2.
              set_member (\<lambda>t. t) ` set (the (map_of ?p1 k))
                \<noteq> set_member (\<lambda>t. t) ` set (the (map_of ?p2 k))} = {''/r''}"
    by (auto simp: set_member_def wrapper_content_def)
  from compare_keys_by_members [of "\<lambda>t. t" ?p1 ?p2]
  obtain d where run: "XMLCompare_compare (\<lambda>t. t) ?p1 ?p2 [] = Inr d"
    and keys: "fst ` set d =
         (fst ` set ?p1 - fst ` set ?p2) \<union> (fst ` set ?p2 - fst ` set ?p1)
         \<union> {k \<in> fst ` set ?p1 \<inter> fst ` set ?p2.
              set_member (\<lambda>t. t) ` set (the (map_of ?p1 k))
                \<noteq> set_member (\<lambda>t. t) ` set (the (map_of ?p2 k))}"
    and only1: "\<forall>k \<in> fst ` set ?p1 - fst ` set ?p2.
           map_of d k = Some [(''root1'', the (map_of ?p1 k))]"
    and only2: "\<forall>k \<in> fst ` set ?p2 - fst ` set ?p1.
           map_of d k = Some [(''root2'', the (map_of ?p2 k))]"
    and both: "\<forall>k \<in> fst ` set ?p1 \<inter> fst ` set ?p2.
           set_member (\<lambda>t. t) ` set (the (map_of ?p1 k))
             \<noteq> set_member (\<lambda>t. t) ` set (the (map_of ?p2 k)) \<longrightarrow>
           map_of d k =
             Some [(''root1'', the (map_of ?p1 k)), (''root2'', the (map_of ?p2 k))]"
    by (elim exE conjE) (rule that)
  have k: "fst ` set d = {''/r/a'', ''/r/c'', ''/r''}"
    unfolding keys shared by auto
  have a: "map_of d ''/r/a'' = Some [(''root1'', [WrappedElement (Element ''a'' [] None [])])]"
    using only1 by simp
  have c: "map_of d ''/r/c'' = Some [(''root2'', [WrappedElement (Element ''c'' [] None [])])]"
    using only2 by simp
  have r: "map_of d ''/r'' = Some [(''root1'', [WrappedElement (Element ''r'' [] None [])]),
                               (''root2'', [WrappedElement (Element ''r'' [] (Some ''t'') [])])]"
    using both by (simp add: set_member_def wrapper_content_def)
  show ?thesis
    by (intro exI [of _ d] conjI run k a c r)
qed

text \<open>
  C1. The key set of the claim, with the sets of wrappers under a shared key compared by
  the wrapper equality (attribute mapping and text), against the keys the code reports,
  for the documents \<open><r><a x="1" y="2"/></r>\<close> and \<open><r><a y="2" x="1"/></r>\<close> with
  no preferred attribute. The two path maps have the same keys \<open>/r\<close> and \<open>/r/a\<close>, and
  under each the wrappers have the same contents, so the key set of the claim is empty.
  The two wrappers under \<open>/r/a\<close> have different hash tuples; with a hash that tells
  them apart the Python sets differ and the report has the key \<open>/r/a\<close>.
\<close>

theorem reordered_attributes_add_a_key:
  "map_sum id paths (XMLUniquePath_init
      (Element ''r'' [] None [Element ''a'' [(''x'', ''1''), (''y'', ''2'')] None []]) [] 80)
     = Inr [(''/r'', [WrappedElement
                (Element ''r'' [] None [Element ''a'' [(''x'', ''1''), (''y'', ''2'')] None []])]),
            (''/r/a'', [WrappedElement (Element ''a'' [(''x'', ''1''), (''y'', ''2'')] None [])])]
   \<and> map_sum id paths (XMLUniquePath_init
      (Element ''r'' [] None [Element ''a'' [(''y'', ''2''), (''x'', ''1'')] None []]) [] 80)
     = Inr [(''/r'', [WrappedElement
                (Element ''r'' [] None [Element ''a'' [(''y'', ''2''), (''x'', ''1'')] None []])]),
            (''/r/a'', [WrappedElement (Element ''a'' [(''y'', ''2''), (''x'', ''1'')] None [])])]
   \<and> (fst ` set [(''/r'', [WrappedElement
                (Element ''r'' [] None [Element ''a'' [(''x'', ''1''), (''y'', ''2'')] None []])]),
            (''/r/a'', [WrappedElement (Element ''a'' [(''x'', ''1''), (''y'', ''2'')] None [])])]
        - fst ` set [(''/r'', [WrappedElement
                (Element ''r'' [] None [Element ''a'' [(''y'', ''2''), (''x'', ''1'')] None []])]),
            (''/r/a'', [WrappedElement (Element ''a'' [(''y'', ''2''), (''x'', ''1'')] None [])])])
      \<union> (fst ` set [(''/r'', [WrappedElement
                (Element ''r'' [] None [Element ''a'' [(''y'', ''2''), (''x'', ''1'')] None []])]),
            (''/r/a'', [WrappedElement (Element ''a'' [(''y'', ''2''), (''x'', ''1'')] None [])])]
        - fst ` set [(''/r'', [WrappedElement
                (Element ''r'' [] None [Element ''a'' [(''x'', ''1''), (''y'', ''2'')] None []])]),
            (''/r/a'', [WrappedElement (Element ''a'' [(''x'', ''1''), (''y'', ''2'')] None [])])])
      \<union> {k \<in> fst ` set [(''/r'', [WrappedElement
                (Element ''r'' [] None [Element ''a'' [(''x'', ''1''), (''y'', ''2'')] None []])]),
            (''/r/a'', [WrappedElement (Element ''a'' [(''x'', ''1''), (''y'', ''2'')] None [])])]
          \<inter> fst ` set [(''/r'', [WrappedElement
                (Element ''r'' [] None [Element ''a'' [(''y'', ''2''), (''x'', ''1'')] None []])]),
            (''/r/a'', [WrappedElement (Element ''a'' [(''y'', ''2''), (''x'', ''1'')] None [])])].
           wrapper_content ` set (the (map_of
             [(''/r'', [WrappedElement
                (Element ''r'' [] None [Element ''a'' [(''x'', ''1''), (''y'', ''2'')] None []])]),
              (''/r/a'', [WrappedElement (Element ''a'' [(''x'', ''1''), (''y'', ''2'')] None [])])] k))
           \<noteq> wrapper_content ` set (the (map_of
             [(''/r'', [WrappedElement
                (Element ''r'' [] None [Element ''a'' [(''y'', ''2''), (''x'', ''1'')] None []])]),
              (''/r/a'', [WrappedElement (Element ''a'' [(''y'', ''2''), (''x'', ''1'')] None [])])] k))}
      = {}
   \<and> map_sum id (map fst) (XMLCompare_compare (\<lambda>t. t)
        [(''/r'', [WrappedElement
                (Element ''r'' [] None [Element ''a'' [(''x'', ''1''), (''y'', ''2'')] None []])]),
            (''/r/a'', [WrappedElement (Element ''a'' [(''x'', ''1''), (''y'', ''2'')] None [])])]
        [(''/r'', [WrappedElement
                (Element ''r'' [] None [Element ''a'' [(''y'', ''2''), (''x'', ''1'')] None []])]),
            (''/r/a'', [WrappedElement (Element ''a'' [(''y'', ''2''), (''x'', ''1'')] None [])])] [])
     = Inr [''/r/a'']"
proof -
  let ?a1 = "Element ''a'' [(''x'', ''1''), (''y'', ''2'')] None []"
  let ?a2 = "Element ''a'' [(''y'', ''2''), (''x'', ''1'')] None []"
  let ?p1 = "[(''/r'', [WrappedElement (Element ''r'' [] None [?a1])]),
              (''/r/a'', [WrappedElement ?a1])]"
  let ?p2 = "[(''/r'', [WrappedElement (Element ''r'' [] None [?a2])]),
              (''/r/a'', [WrappedElement ?a2])]"
  have run1: "map_sum id paths (XMLUniquePath_init (Element ''r'' [] None [?a1]) [] 80) = Inr ?p1"
    by code_simp
  have run2: "map_sum id paths (XMLUniquePath_init (Element ''r'' [] None [?a2]) [] 80) = Inr ?p2"
    by code_simp
  have keys: "fst ` set ?p1 = {''/r'', ''/r/a''}" "fst ` set ?p2 = {''/r'', ''/r/a''}"
    by simp_all
  have attribs: "map_of [(''x'', ''1''), (''y'', ''2'')] = map_of [(''y'', ''2''), (''x'', ''1'')]"
    by (rule ext) simp
  have r: "wrapper_content ` set (the (map_of ?p1 ''/r''))
      = wrapper_content ` set (the (map_of ?p2 ''/r''))"
    by (simp add: wrapper_content_def)
  have a: "wrapper_content ` set (the (map_of ?p1 ''/r/a''))
      = wrapper_content ` set (the (map_of ?p2 ''/r/a''))"
    using attribs by (simp add: wrapper_content_def)
  have shared: "{k \<in> fst ` set ?p1 \<inter> fst ` set ?p2.
           wrapper_content ` set (the (map_of ?p1 k))
             \<noteq> wrapper_content ` set (the (map_of ?p2 k))} = {}"
  proof (rule equals0I)
    fix k
    assume "k \<in> {k \<in> fst ` set ?p1 \<inter> fst ` set ?p2.
           wrapper_content ` set (the (map_of ?p1 k))
             \<noteq> wrapper_content ` set (the (map_of ?p2 k))}"
    then have k: "k \<in> fst ` set ?p1"
      and ne: "wrapper_content ` set (the (map_of ?p1 k))
             \<noteq> wrapper_content ` set (the (map_of ?p2 k))"
      by blast+
    from k have "k = ''/r'' \<or> k = ''/r/a''"
      unfolding keys by blast
    with ne r a show False
      by blast
  qed
  have claimed: "(fst ` set ?p1 - fst ` set ?p2) \<union> (fst ` set ?p2 - fst ` set ?p1)
      \<union> {k \<in> fst ` set ?p1 \<inter> fst ` set ?p2.
           wrapper_content ` set (the (map_of ?p1 k))
             \<noteq> wrapper_content ` set (the (map_of ?p2 k))} = {}"
    unfolding shared unfolding keys by simp
  have code: "map_sum id (map fst) (XMLCompare_compare (\<lambda>t. t) ?p1 ?p2 []) = Inr [''/r/a'']"
    by code_simp
  show ?thesis
    by (rule conjI [OF run1 conjI [OF run2 conjI [OF claimed code]]])
qed

subsection \<open>The path map of a tree\<close>

lemma process_elems_append:
  "process_elems self (xs @ ys) =
     (case process_elems self xs of Inl e \<Rightarrow> Inl e | Inr s \<Rightarrow> process_elems s ys)"
  by (induction xs arbitrary: self) (auto split: sum.splits)

lemma add_nodes_append: "add_nodes pm (xs @ ys) = add_nodes (add_nodes pm xs) ys"
  by (simp add: add_nodes_def)

lemma add_nodes_Cons:
  "add_nodes pm ((tp, e) # ns) = add_nodes (paths_add pm tp (WrappedElement e)) ns"
  by (simp add: add_nodes_def)

lemma add_nodes_Nil: "add_nodes pm [] = pm"
  by (simp add: add_nodes_def)

lemma child_segments_nonempty: "seg \<in> set (child_segments cs) \<Longrightarrow> seg \<noteq> []"
  by (auto simp: child_segments_def path_segment_def Let_def)

lemma length_child_segments: "length (child_segments cs) = length cs"
  by (simp add: child_segments_def)

lemma process_elem_found:
  assumes "replace_trans (p_trans_table self) (case parent of None \<Rightarrow> [] | Some pp \<Rightarrow> pp)
      = Inr parent_path"
  shows "process_elem self (parent, path, elem) =
     Inr (self\<lparr>p_trans_table :=
                 AList.update path
                   (translated_path (p_special_attribs self) (p_max_text_len self) parent_path elem)
                   (p_trans_table self),
               paths := paths_add (paths self)
                   (translated_path (p_special_attribs self) (p_max_text_len self) parent_path elem)
                   (WrappedElement elem)\<rparr>)"
  using assms by (simp add: process_elem_def Let_def)

lemma process_children:
  assumes IH: "\<And>seg c self. (seg, c) \<in> set scs \<Longrightarrow>
      map_of (p_trans_table self) p = Some sp \<Longrightarrow>
      \<exists>tt. process_elems self (iter_from (Some p) (p @ seg) c) =
            Inr (self\<lparr>p_trans_table := tt,
                      paths := add_nodes (paths self)
                        (synthetic_nodes (p_special_attribs self) (p_max_text_len self) sp c)\<rparr>)
         \<and> (\<forall>q. \<not> prefix (p @ seg) q \<longrightarrow> map_of tt q = map_of (p_trans_table self) q)"
    and segs: "\<And>seg c. (seg, c) \<in> set scs \<Longrightarrow> seg \<noteq> []"
    and parent: "map_of (p_trans_table self) p = Some sp"
  shows "\<exists>tt. process_elems self
            (concat (map (\<lambda>(seg, c). iter_from (Some p) (p @ seg) c) scs)) =
          Inr (self\<lparr>p_trans_table := tt,
                    paths := add_nodes (paths self)
                      (concat (map (\<lambda>(seg, c).
                         synthetic_nodes (p_special_attribs self) (p_max_text_len self) sp c)
                         scs))\<rparr>)
       \<and> (\<forall>q. \<not> strict_prefix p q \<longrightarrow> map_of tt q = map_of (p_trans_table self) q)"
  using assms
proof (induction scs arbitrary: self)
  case Nil
  have "self = self\<lparr>p_trans_table := p_trans_table self, paths := paths self\<rparr>"
    by simp
  then show ?case
    by (auto simp: add_nodes_Nil intro!: exI [of _ "p_trans_table self"])
next
  case (Cons sc scs)
  obtain seg c where sc: "sc = (seg, c)"
    by (cases sc)
  have seg: "seg \<noteq> []"
    using Cons.prems(2) [of seg c] sc by simp
  from Cons.prems(1) [of seg c self] sc Cons.prems(3)
  obtain tt1 where first: "process_elems self (iter_from (Some p) (p @ seg) c) =
            Inr (self\<lparr>p_trans_table := tt1,
                      paths := add_nodes (paths self)
                        (synthetic_nodes (p_special_attribs self) (p_max_text_len self) sp c)\<rparr>)"
    and frame1: "\<And>q. \<not> prefix (p @ seg) q \<Longrightarrow> map_of tt1 q = map_of (p_trans_table self) q"
    by auto
  let ?s1 = "self\<lparr>p_trans_table := tt1,
                  paths := add_nodes (paths self)
                    (synthetic_nodes (p_special_attribs self) (p_max_text_len self) sp c)\<rparr>"
  have strict: "\<not> prefix (p @ seg) q" if "\<not> strict_prefix p q" for q
  proof
    assume "prefix (p @ seg) q"
    then obtain r where "q = p @ seg @ r"
      by (auto simp: prefix_def)
    with seg have "strict_prefix p q"
      by (simp add: strict_prefix_def prefix_def)
    with that show False
      by simp
  qed
  have parent1: "map_of (p_trans_table ?s1) p = Some sp"
    using frame1 [of p] strict [of p] Cons.prems(3) by simp
  have "\<exists>tt. process_elems ?s1
            (concat (map (\<lambda>(seg, c). iter_from (Some p) (p @ seg) c) scs)) =
          Inr (?s1\<lparr>p_trans_table := tt,
                    paths := add_nodes (paths ?s1)
                      (concat (map (\<lambda>(seg, c).
                         synthetic_nodes (p_special_attribs ?s1) (p_max_text_len ?s1) sp c)
                         scs))\<rparr>)
       \<and> (\<forall>q. \<not> strict_prefix p q \<longrightarrow> map_of tt q = map_of (p_trans_table ?s1) q)"
  proof (rule Cons.IH)
    fix seg' :: string and c' :: element and self' :: XMLUniquePath
    assume "(seg', c') \<in> set scs" and "map_of (p_trans_table self') p = Some sp"
    then show "\<exists>tt. process_elems self' (iter_from (Some p) (p @ seg') c') =
            Inr (self'\<lparr>p_trans_table := tt,
                      paths := add_nodes (paths self')
                        (synthetic_nodes (p_special_attribs self') (p_max_text_len self') sp c')\<rparr>)
         \<and> (\<forall>q. \<not> prefix (p @ seg') q \<longrightarrow> map_of tt q = map_of (p_trans_table self') q)"
      using Cons.prems(1) [of seg' c' self'] by simp
  next
    fix seg' c'
    assume "(seg', c') \<in> set scs"
    then show "seg' \<noteq> []"
      using Cons.prems(2) [of seg' c'] by simp
  next
    show "map_of (p_trans_table ?s1) p = Some sp"
      by (rule parent1)
  qed
  then obtain tt2 where rest: "process_elems ?s1
            (concat (map (\<lambda>(seg, c). iter_from (Some p) (p @ seg) c) scs)) =
          Inr (?s1\<lparr>p_trans_table := tt2,
                    paths := add_nodes (paths ?s1)
                      (concat (map (\<lambda>(seg, c).
                         synthetic_nodes (p_special_attribs ?s1) (p_max_text_len ?s1) sp c)
                         scs))\<rparr>)"
    and frame2: "\<And>q. \<not> strict_prefix p q \<Longrightarrow> map_of tt2 q = map_of (p_trans_table ?s1) q"
    by auto
  show ?case
  proof (intro exI [of _ tt2] conjI allI impI)
    show "process_elems self
            (concat (map (\<lambda>(seg, c). iter_from (Some p) (p @ seg) c) (sc # scs))) =
          Inr (self\<lparr>p_trans_table := tt2,
                    paths := add_nodes (paths self)
                      (concat (map (\<lambda>(seg, c).
                         synthetic_nodes (p_special_attribs self) (p_max_text_len self) sp c)
                         (sc # scs)))\<rparr>)"
      using first rest by (simp add: sc process_elems_append add_nodes_append)
  next
    fix q
    assume "\<not> strict_prefix p q"
    then show "map_of tt2 q = map_of (p_trans_table self) q"
      using frame2 [of q] frame1 [of q] strict [of q] by simp
  qed
qed

lemma map_zip_snd:
  "length xs = length ys \<Longrightarrow> map (\<lambda>(x, y). f y) (zip xs ys) = map f ys"
  by (induction xs ys rule: list_induct2) auto

lemma process_subtree:
  assumes "replace_trans (p_trans_table self) (case parent of None \<Rightarrow> [] | Some pp \<Rightarrow> pp)
      = Inr parent_path"
    and "p \<noteq> []"
  shows "\<exists>tt. process_elems self (iter_from parent p e) =
            Inr (self\<lparr>p_trans_table := tt,
                      paths := add_nodes (paths self)
                        (synthetic_nodes (p_special_attribs self) (p_max_text_len self)
                           parent_path e)\<rparr>)
         \<and> (\<forall>q. \<not> prefix p q \<longrightarrow> map_of tt q = map_of (p_trans_table self) q)"
  using assms
proof (induction e arbitrary: self parent parent_path p)
  case (Element t a x cs)
  let ?e = "Element t a x cs"
  let ?tp = "translated_path (p_special_attribs self) (p_max_text_len self) parent_path ?e"
  let ?s0 = "self\<lparr>p_trans_table := AList.update p ?tp (p_trans_table self),
                   paths := paths_add (paths self) ?tp (WrappedElement ?e)\<rparr>"
  let ?scs = "zip (child_segments cs) cs"
  have step: "process_elem self (parent, p, ?e) = Inr ?s0"
    using Element.prems(1) by (rule process_elem_found)
  have parent0: "map_of (p_trans_table ?s0) p = Some ?tp"
    by (simp add: update_conv')
  have "\<exists>tt. process_elems ?s0
            (concat (map (\<lambda>(seg, c). iter_from (Some p) (p @ seg) c) ?scs)) =
          Inr (?s0\<lparr>p_trans_table := tt,
                    paths := add_nodes (paths ?s0)
                      (concat (map (\<lambda>(seg, c).
                         synthetic_nodes (p_special_attribs ?s0) (p_max_text_len ?s0) ?tp c)
                         ?scs))\<rparr>)
       \<and> (\<forall>q. \<not> strict_prefix p q \<longrightarrow> map_of tt q = map_of (p_trans_table ?s0) q)"
  proof (rule process_children)
    fix seg :: string and c :: element and self' :: XMLUniquePath
    assume in_scs: "(seg, c) \<in> set ?scs" and par: "map_of (p_trans_table self') p = Some ?tp"
    from in_scs have c: "c \<in> set cs"
      by (rule set_zip_rightD)
    have look: "replace_trans (p_trans_table self') (case Some p of None \<Rightarrow> [] | Some pp \<Rightarrow> pp)
        = Inr ?tp"
      using par by (simp add: replace_trans_exact)
    have "p @ seg \<noteq> []"
      using Element.prems(2) by simp
    from Element.IH [OF c look this]
    show "\<exists>tt. process_elems self' (iter_from (Some p) (p @ seg) c) =
            Inr (self'\<lparr>p_trans_table := tt,
                      paths := add_nodes (paths self')
                        (synthetic_nodes (p_special_attribs self') (p_max_text_len self') ?tp c)\<rparr>)
         \<and> (\<forall>q. \<not> prefix (p @ seg) q \<longrightarrow> map_of tt q = map_of (p_trans_table self') q)" .
  next
    fix seg :: string and c :: element
    assume "(seg, c) \<in> set ?scs"
    then have "seg \<in> set (child_segments cs)"
      by (rule set_zip_leftD)
    then show "seg \<noteq> []"
      by (rule child_segments_nonempty)
  next
    show "map_of (p_trans_table ?s0) p = Some ?tp"
      by (rule parent0)
  qed
  then obtain tt where children: "process_elems ?s0
            (concat (map (\<lambda>(seg, c). iter_from (Some p) (p @ seg) c) ?scs)) =
          Inr (?s0\<lparr>p_trans_table := tt,
                    paths := add_nodes (paths ?s0)
                      (concat (map (\<lambda>(seg, c).
                         synthetic_nodes (p_special_attribs ?s0) (p_max_text_len ?s0) ?tp c)
                         ?scs))\<rparr>)"
    and frame: "\<And>q. \<not> strict_prefix p q \<Longrightarrow> map_of tt q = map_of (p_trans_table ?s0) q"
    by auto
  have unzip: "map (\<lambda>(seg, c).
        synthetic_nodes (p_special_attribs self) (p_max_text_len self) ?tp c) ?scs
      = map (synthetic_nodes (p_special_attribs self) (p_max_text_len self) ?tp) cs"
    by (rule map_zip_snd) (rule length_child_segments)
  show ?case
  proof (intro exI [of _ tt] conjI allI impI)
    show "process_elems self (iter_from parent p ?e) =
            Inr (self\<lparr>p_trans_table := tt,
                      paths := add_nodes (paths self)
                        (synthetic_nodes (p_special_attribs self) (p_max_text_len self)
                           parent_path ?e)\<rparr>)"
      using step children unzip by (simp add: add_nodes_Cons)
  next
    fix q
    assume "\<not> prefix p q"
    then have "\<not> strict_prefix p q" and "q \<noteq> p"
      by (auto simp: strict_prefix_def)
    then show "map_of tt q = map_of (p_trans_table self) q"
      using frame [of q] by (simp add: update_conv')
  qed
qed

lemma map_of_paths_add:
  "map_of (paths_add pm tp w) k =
     (if k = tp then Some ((case map_of pm tp of None \<Rightarrow> [] | Some ws \<Rightarrow> ws) @ [w])
      else map_of pm k)"
  by (simp add: paths_add_def update_conv' split: option.splits)

lemma map_of_add_nodes:
  "map_of (add_nodes pm nodes) k =
     (case map_of pm k of
        None \<Rightarrow> if nodes_at k nodes = [] then None else Some (nodes_at k nodes)
      | Some ws \<Rightarrow> Some (ws @ nodes_at k nodes))"
proof (induction nodes arbitrary: pm)
  case Nil
  show ?case
    by (simp add: add_nodes_Nil nodes_at_def split: option.splits)
next
  case (Cons n nodes)
  obtain tp e where n: "n = (tp, e)"
    by (cases n)
  show ?case
    unfolding n add_nodes_Cons Cons.IH map_of_paths_add
    by (simp add: nodes_at_def split: option.splits)
qed



lemma XMLUniquePath_init_result:
  "\<exists>tt. XMLUniquePath_init tree sa mtl =
     Inr \<lparr>root = tree, p_special_attribs = sa, p_max_text_len = mtl,
          paths = add_nodes [] (synthetic_nodes sa mtl [] tree), p_trans_table = tt\<rparr>"
proof -
  let ?self = "\<lparr>root = tree, p_special_attribs = sa, p_max_text_len = mtl,
        paths = [], p_trans_table = []\<rparr>"
  have look: "replace_trans (p_trans_table ?self) (case None of None \<Rightarrow> [] | Some pp \<Rightarrow> pp)
      = Inr []"
    by (simp add: replace_trans_def)
  have "[CHR ''/''] @ elem_tag tree \<noteq> []"
    by simp
  from process_subtree [OF look this, of tree]
  obtain tt where "process_elems ?self (iter_from None ([CHR ''/''] @ elem_tag tree) tree) =
            Inr (?self\<lparr>p_trans_table := tt,
                      paths := add_nodes (paths ?self)
                        (synthetic_nodes (p_special_attribs ?self) (p_max_text_len ?self)
                           [] tree)\<rparr>)"
    by blast
  then show ?thesis
    by (simp add: XMLUniquePath_init_def create_path_tree_def tree_iter_def)
qed

lemma nodes_at_empty_iff: "nodes_at k nodes = [] \<longleftrightarrow> k \<notin> fst ` set nodes"
  by (auto simp: nodes_at_def filter_empty_conv image_iff)




subsection \<open>\<open>XMLCompare\<close>\<close>

lemma XMLCompare_init_result:
  "\<exists>self1 self2 d.
     XMLUniquePath_init root1 sa mtl = Inr self1
     \<and> XMLUniquePath_init root2 sa mtl = Inr self2
     \<and> XMLCompare_compare py_hash (paths self1) (paths self2) [] = Inr d
     \<and> XMLCompare_init py_hash root1 root2 sa mtl =
         Inr \<lparr>diff_items = d, p_paths1 = self1, p_paths2 = self2\<rparr>"
proof -
  from XMLUniquePath_init_result [of root1 sa mtl]
  obtain self1 where s1: "XMLUniquePath_init root1 sa mtl = Inr self1"
    by blast
  from XMLUniquePath_init_result [of root2 sa mtl]
  obtain self2 where s2: "XMLUniquePath_init root2 sa mtl = Inr self2"
    by blast
  from XMLCompare_compare_result [of py_hash "paths self1" "paths self2"]
  obtain d where d: "XMLCompare_compare py_hash (paths self1) (paths self2) [] = Inr d"
    by blast
  show ?thesis
    using s1 s2 d by (simp add: XMLCompare_init_def)
qed

text \<open>
  C2. For every pair of trees the constructor returns, and \<open>the_same\<close> holds exactly
  when the diff report is the empty dictionary, that is, when no key has a diff entry.
\<close>

theorem the_same_iff_no_diff_entry:
  "\<exists>self. XMLCompare_init py_hash root1 root2 sa mtl = Inr self
     \<and> (the_same self \<longleftrightarrow> diff_items self = [])
     \<and> (the_same self \<longleftrightarrow> (\<forall>k. map_of (diff_items self) k = None))
     \<and> (the_same self \<longleftrightarrow> fst ` set (diff_items self) = {})"
proof -
  from XMLCompare_init_result [of root1 sa mtl root2 py_hash]
  obtain self where run: "XMLCompare_init py_hash root1 root2 sa mtl = Inr self"
    by blast
  have a: "the_same self \<longleftrightarrow> diff_items self = []"
    by (simp add: the_same_def)
  have b: "the_same self \<longleftrightarrow> (\<forall>k. map_of (diff_items self) k = None)"
    unfolding a by (cases "diff_items self") (auto simp: fun_eq_iff)
  have c: "the_same self \<longleftrightarrow> fst ` set (diff_items self) = {}"
    unfolding a by simp
  from run a b c show ?thesis
    by blast
qed

theorem the_same_iff_no_diff_entry_witness:
  "\<exists>self. XMLCompare_init (\<lambda>t. t)
       (Element ''r'' [] None [Element ''a'' [] None []])
       (Element ''r'' [] None [Element ''b'' [] None []]) [] 80 = Inr self
     \<and> (the_same self \<longleftrightarrow> diff_items self = [])
     \<and> (the_same self \<longleftrightarrow> fst ` set (diff_items self) = {})"
  using the_same_iff_no_diff_entry
    [of "\<lambda>t. t" "Element ''r'' [] None [Element ''a'' [] None []]"
      "Element ''r'' [] None [Element ''b'' [] None []]" "[]" 80]
  by (elim exE conjE) (intro exI conjI, assumption+)

subsection \<open>Reordering siblings\<close>

lemma reordered_refl: "reordered e e"
proof (induction e)
  case (Element t a x cs)
  then have "list_all2 reordered cs cs"
    by (simp add: list_all2_same)
  then show ?case
    by (rule reordered.siblings) simp
qed

lemma translated_path_cong:
  "translated_path sa mtl pp (Element t a x cs) = translated_path sa mtl pp (Element t a x ds)"
  by (cases x) (simp_all add: translated_path_def unique_str_def unique_str_raw_def Let_def)

lemma mset_concat_map_cong:
  assumes "list_all2 (\<lambda>c d. mset (f c) = mset (g d)) cs ds"
  shows "mset (concat (map f cs)) = mset (concat (map g ds))"
  using assms by (induction cs ds rule: list_all2_induct) simp_all

lemma mset_concat_map_perm:
  assumes "mset ds' = mset ds"
  shows "mset (concat (map g ds')) = mset (concat (map g ds))"
proof -
  have "mset (concat (map g zs)) = (\<Sum>z \<in># mset zs. mset (g z))" for zs
    by (induction zs) simp_all
  with assms show ?thesis
    by simp
qed

lemma reordered_node_data:
  "reordered e e' \<Longrightarrow>
   mset (map node_data (synthetic_nodes sa mtl pp e))
     = mset (map node_data (synthetic_nodes sa mtl pp e'))"
proof (induction e e' arbitrary: pp rule: reordered.induct)
  case (siblings cs ds ds' t a x)
  let ?tp = "translated_path sa mtl pp (Element t a x cs)"
  have tp: "translated_path sa mtl pp (Element t a x ds') = ?tp"
    by (rule translated_path_cong)
  have "list_all2 (\<lambda>c d. mset (map node_data (synthetic_nodes sa mtl ?tp c))
      = mset (map node_data (synthetic_nodes sa mtl ?tp d))) cs ds"
    using siblings.IH by (rule list_all2_mono) simp
  then have "mset (concat (map (\<lambda>c. map node_data (synthetic_nodes sa mtl ?tp c)) cs))
      = mset (concat (map (\<lambda>d. map node_data (synthetic_nodes sa mtl ?tp d)) ds))"
    by (rule mset_concat_map_cong)
  also have "\<dots> = mset (concat (map (\<lambda>d. map node_data (synthetic_nodes sa mtl ?tp d)) ds'))"
    using siblings.hyps by (rule mset_concat_map_perm [symmetric])
  finally have children:
    "mset (concat (map (\<lambda>c. map node_data (synthetic_nodes sa mtl ?tp c)) cs))
      = mset (concat (map (\<lambda>d. map node_data (synthetic_nodes sa mtl ?tp d)) ds'))" .
  have head: "node_data (?tp, Element t a x cs) = node_data (?tp, Element t a x ds')"
    by (simp add: node_data_def)
  show ?case
    using children by (simp add: tp map_concat comp_def head)
qed

lemma wrapper_content_data: "wrapper_content w = (map_of (fst (wrapper_data w)), snd (wrapper_data w))"
  by (simp add: wrapper_content_def wrapper_data_def)

lemma set_member_data:
  "set_member py_hash w =
     (py_hash (map (\<lambda>(k, v). AttribItem k v) (fst (wrapper_data w))
        @ [TextItem (snd (wrapper_data w))]),
      map_of (fst (wrapper_data w)), snd (wrapper_data w))"
  by (simp add: set_member_def WrappedElement_hash_def hash_tuple_def wrapper_content_def
      wrapper_data_def)

lemma same_data_same_contents:
  assumes "mset (map wrapper_data ws) = mset (map wrapper_data ws')"
  shows "wrapper_content ` set ws = wrapper_content ` set ws'"
proof -
  from assms have "set (map wrapper_data ws) = set (map wrapper_data ws')"
    by (rule mset_eq_setD)
  then have "(\<lambda>d. (map_of (fst d), snd d)) ` wrapper_data ` set ws
      = (\<lambda>d. (map_of (fst d), snd d)) ` wrapper_data ` set ws'"
    by simp
  then show ?thesis
    by (simp add: image_image wrapper_content_data)
qed

lemma same_data_same_members:
  assumes "mset (map wrapper_data ws) = mset (map wrapper_data ws')"
  shows "set_member py_hash ` set ws = set_member py_hash ` set ws'"
proof -
  let ?g = "\<lambda>d. (py_hash (map (\<lambda>(k, v). AttribItem k v) (fst d) @ [TextItem (snd d)]),
      map_of (fst d), snd d)"
  from assms have "set (map wrapper_data ws) = set (map wrapper_data ws')"
    by (rule mset_eq_setD)
  then have "?g ` wrapper_data ` set ws = ?g ` wrapper_data ` set ws'"
    by simp
  then show ?thesis
    by (simp add: image_image set_member_data)
qed

lemma nodes_at_data:
  "map wrapper_data (nodes_at k nodes) = map snd [d \<leftarrow> map node_data nodes. fst d = k]"
  by (induction nodes) (auto simp: nodes_at_def wrapper_data_def node_data_def)

lemma same_node_data_nodes_at:
  assumes "mset (map node_data nodes) = mset (map node_data nodes')"
  shows "mset (map wrapper_data (nodes_at k nodes)) = mset (map wrapper_data (nodes_at k nodes'))"
proof -
  have "mset (map wrapper_data (nodes_at k ns))
      = image_mset snd (filter_mset (\<lambda>d. fst d = k) (mset (map node_data ns)))" for ns
    unfolding nodes_at_data by simp
  with assms show ?thesis
    by simp
qed

lemma same_node_data_keys:
  assumes "mset (map node_data nodes) = mset (map node_data nodes')"
  shows "fst ` set nodes = fst ` set nodes'"
proof -
  from assms have "set (map node_data nodes) = set (map node_data nodes')"
    by (rule mset_eq_setD)
  then have "fst ` node_data ` set nodes = fst ` node_data ` set nodes'"
    by simp
  then show ?thesis
    by (simp add: image_image node_data_def)
qed

lemma XMLUniquePath_init_paths:
  "\<exists>self. XMLUniquePath_init tree sa mtl = Inr self
     \<and> fst ` set (paths self) = fst ` set (synthetic_nodes sa mtl [] tree)
     \<and> (\<forall>k. map_of (paths self) k =
          (if k \<in> fst ` set (synthetic_nodes sa mtl [] tree)
           then Some (nodes_at k (synthetic_nodes sa mtl [] tree)) else None))"
proof -
  let ?nodes = "synthetic_nodes sa mtl [] tree"
  from XMLUniquePath_init_result [of tree sa mtl]
  obtain self where run: "XMLUniquePath_init tree sa mtl = Inr self"
    and pm: "paths self = add_nodes [] ?nodes"
    by force
  have look: "map_of (paths self) k =
      (if k \<in> fst ` set ?nodes then Some (nodes_at k ?nodes) else None)" for k
    by (simp add: pm map_of_add_nodes nodes_at_empty_iff)
  have keys: "fst ` set (paths self) = fst ` set ?nodes"
  proof (rule set_eqI)
    fix k
    have "k \<in> fst ` set (paths self) \<longleftrightarrow> map_of (paths self) k \<noteq> None"
      by (simp add: map_of_eq_None_iff)
    then show "k \<in> fst ` set (paths self) \<longleftrightarrow> k \<in> fst ` set ?nodes"
      by (simp add: look)
  qed
  from run keys look show ?thesis
    by blast
qed

text \<open>
  C3. For a tree and the same tree with siblings reordered, at any level and whether or
  not the siblings can be told apart, the two path maps have the same keys and under every
  key the same set of wrapper contents; the comparison of the two trees yields the empty
  diff report, for every hash function.
\<close>

theorem reordering_siblings_keeps_path_map:
  assumes "reordered tree tree'"
  shows "\<exists>self self' cmp.
      XMLUniquePath_init tree sa mtl = Inr self
    \<and> XMLUniquePath_init tree' sa mtl = Inr self'
    \<and> fst ` set (paths self) = fst ` set (paths self')
    \<and> (\<forall>k \<in> fst ` set (paths self).
          wrapper_content ` set (the (map_of (paths self) k))
            = wrapper_content ` set (the (map_of (paths self') k)))
    \<and> XMLCompare_init py_hash tree tree' sa mtl = Inr cmp
    \<and> diff_items cmp = [] \<and> the_same cmp"
proof -
  let ?n = "synthetic_nodes sa mtl [] tree" and ?n' = "synthetic_nodes sa mtl [] tree'"
  from assms have data: "mset (map node_data ?n) = mset (map node_data ?n')"
    by (rule reordered_node_data)
  from XMLCompare_init_result [of tree sa mtl tree' py_hash]
  obtain self self' d where run: "XMLUniquePath_init tree sa mtl = Inr self"
    and run': "XMLUniquePath_init tree' sa mtl = Inr self'"
    and cmp: "XMLCompare_compare py_hash (paths self) (paths self') [] = Inr d"
    and init: "XMLCompare_init py_hash tree tree' sa mtl =
         Inr \<lparr>diff_items = d, p_paths1 = self, p_paths2 = self'\<rparr>"
    by blast
  from XMLUniquePath_init_paths [of tree sa mtl] run
  have keys: "fst ` set (paths self) = fst ` set ?n"
    and look: "\<And>k. map_of (paths self) k =
          (if k \<in> fst ` set ?n then Some (nodes_at k ?n) else None)"
    by auto
  from XMLUniquePath_init_paths [of tree' sa mtl] run'
  have keys': "fst ` set (paths self') = fst ` set ?n'"
    and look': "\<And>k. map_of (paths self') k =
          (if k \<in> fst ` set ?n' then Some (nodes_at k ?n') else None)"
    by auto
  have same_keys: "fst ` set (paths self) = fst ` set (paths self')"
    unfolding keys keys' using data by (rule same_node_data_keys)
  have lists: "mset (map wrapper_data (the (map_of (paths self) k)))
      = mset (map wrapper_data (the (map_of (paths self') k)))"
    if "k \<in> fst ` set (paths self)" for k
  proof -
    from that have "k \<in> fst ` set ?n" and "k \<in> fst ` set ?n'"
      using keys keys' same_keys by simp_all
    then show ?thesis
      using same_node_data_nodes_at [OF data, of k] by (simp add: look look')
  qed
  have contents: "\<forall>k \<in> fst ` set (paths self).
          wrapper_content ` set (the (map_of (paths self) k))
            = wrapper_content ` set (the (map_of (paths self') k))"
  proof
    fix k
    assume "k \<in> fst ` set (paths self)"
    then have "mset (map wrapper_data (the (map_of (paths self) k)))
      = mset (map wrapper_data (the (map_of (paths self') k)))"
      by (rule lists)
    then show "wrapper_content ` set (the (map_of (paths self) k))
            = wrapper_content ` set (the (map_of (paths self') k))"
      by (rule same_data_same_contents)
  qed
  have members: "set_member py_hash ` set (the (map_of (paths self) k))
            = set_member py_hash ` set (the (map_of (paths self') k))"
    if "k \<in> fst ` set (paths self)" for k
    using lists [OF that] by (rule same_data_same_members)
  from XMLCompare_compare_result [of py_hash "paths self" "paths self'"]
  obtain d' where cmp': "XMLCompare_compare py_hash (paths self) (paths self') [] = Inr d'"
    and entry': "\<And>k. map_of d' k =
          (if k \<in> fst ` set (paths self) \<and> k \<notin> fst ` set (paths self')
             then Some [(''root1'', the (map_of (paths self) k))]
           else if k \<in> fst ` set (paths self') \<and> k \<notin> fst ` set (paths self)
             then Some [(''root2'', the (map_of (paths self') k))]
           else if k \<in> fst ` set (paths self) \<and> k \<in> fst ` set (paths self')
               \<and> set_member py_hash ` set (the (map_of (paths self) k))
                   \<noteq> set_member py_hash ` set (the (map_of (paths self') k))
             then Some [(''root1'', the (map_of (paths self) k)),
                        (''root2'', the (map_of (paths self') k))]
           else None)"
    by (elim exE conjE) (rule that, assumption, erule spec)
  from cmp cmp' have "d' = d"
    by simp
  from entry' [unfolded this]
  have entry: "map_of d k =
          (if k \<in> fst ` set (paths self) \<and> k \<notin> fst ` set (paths self')
             then Some [(''root1'', the (map_of (paths self) k))]
           else if k \<in> fst ` set (paths self') \<and> k \<notin> fst ` set (paths self)
             then Some [(''root2'', the (map_of (paths self') k))]
           else if k \<in> fst ` set (paths self) \<and> k \<in> fst ` set (paths self')
               \<and> set_member py_hash ` set (the (map_of (paths self) k))
                   \<noteq> set_member py_hash ` set (the (map_of (paths self') k))
             then Some [(''root1'', the (map_of (paths self) k)),
                        (''root2'', the (map_of (paths self') k))]
           else None)" for k .
  have "map_of d k = None" for k
    unfolding entry [of k] using same_keys members [of k] by simp
  then have "map_of d = Map.empty"
    by (simp add: fun_eq_iff)
  then have empty: "d = []"
    by simp
  show ?thesis
    using run run' same_keys contents init empty
    by (intro exI [of _ self] exI [of _ self']
        exI [of _ "\<lparr>diff_items = d, p_paths1 = self, p_paths2 = self'\<rparr>"])
      (simp add: the_same_def)
qed

theorem reordering_siblings_witness:
  "\<exists>cmp. XMLCompare_init (\<lambda>t. t)
       (Element ''Root'' [] None
          [Element ''Item'' [(''name'', ''x'')] None [],
           Element ''Item'' [(''name'', ''y'')] None []])
       (Element ''Root'' [] None
          [Element ''Item'' [(''name'', ''y'')] None [],
           Element ''Item'' [(''name'', ''x'')] None []])
       [''name''] 80 = Inr cmp
     \<and> diff_items cmp = [] \<and> the_same cmp"
proof -
  let ?x = "Element ''Item'' [(''name'', ''x'')] None []"
  let ?y = "Element ''Item'' [(''name'', ''y'')] None []"
  have "list_all2 reordered [?x, ?y] [?x, ?y]"
    by (simp add: reordered_refl)
  moreover have "mset [?y, ?x] = mset [?x, ?y]"
    by simp
  ultimately have "reordered (Element ''Root'' [] None [?x, ?y]) (Element ''Root'' [] None [?y, ?x])"
    by (rule reordered.siblings)
  from reordering_siblings_keeps_path_map [OF this, of "[''name'']" 80 "\<lambda>t. t"]
  show ?thesis
    by (elim exE conjE) (intro exI conjI, assumption+)
qed

subsection \<open>Shared keys with the same contents\<close>

text \<open>
  When the hash agrees with \<open>__eq__\<close> on the wrappers of two lists, the lists have the
  same members as Python sets as soon as they have the same contents.
\<close>

lemma same_contents_same_members:
  assumes contents: "wrapper_content ` set ws1 = wrapper_content ` set ws2"
    and hash: "\<And>a b. a \<in> set ws1 \<union> set ws2 \<Longrightarrow> b \<in> set ws1 \<union> set ws2 \<Longrightarrow>
        WrappedElement_eq a b \<Longrightarrow>
        WrappedElement_hash py_hash a = WrappedElement_hash py_hash b"
  shows "set_member py_hash ` set ws1 = set_member py_hash ` set ws2"
proof -
  have sub: "set_member py_hash ` set xs \<subseteq> set_member py_hash ` set ys"
    if inc: "wrapper_content ` set xs \<subseteq> wrapper_content ` set ys"
      and xs: "set xs \<subseteq> set ws1 \<union> set ws2" and ys: "set ys \<subseteq> set ws1 \<union> set ws2"
    for xs ys
  proof
    fix m
    assume "m \<in> set_member py_hash ` set xs"
    then obtain a where a: "a \<in> set xs" and m: "m = set_member py_hash a"
      by (rule imageE)
    from a have "wrapper_content a \<in> wrapper_content ` set xs"
      by (rule imageI)
    with inc have "wrapper_content a \<in> wrapper_content ` set ys"
      by (rule subsetD)
    then obtain b where b: "b \<in> set ys" and ab: "wrapper_content a = wrapper_content b"
      by (rule imageE)
    from a xs have "a \<in> set ws1 \<union> set ws2"
      by (rule subsetD [rotated])
    moreover from b ys have "b \<in> set ws1 \<union> set ws2"
      by (rule subsetD [rotated])
    moreover from ab have "WrappedElement_eq a b"
      by (simp only: WrappedElement_eq_content)
    ultimately have "WrappedElement_hash py_hash a = WrappedElement_hash py_hash b"
      by (rule hash)
    with ab have "set_member py_hash a = set_member py_hash b"
      by (simp only: set_member_def)
    with m b show "m \<in> set_member py_hash ` set ys"
      by (simp only: image_eqI)
  qed
  show ?thesis
  proof (rule equalityI)
    show "set_member py_hash ` set ws1 \<subseteq> set_member py_hash ` set ws2"
      by (rule sub) (simp_all only: contents subset_refl Un_upper1 Un_upper2)
    show "set_member py_hash ` set ws2 \<subseteq> set_member py_hash ` set ws1"
      by (rule sub) (simp_all only: contents subset_refl Un_upper1 Un_upper2)
  qed
qed

text \<open>
  A shared key gets no entry when the two lists have the same members as Python sets; that
  is so when they hold the same wrappers (the same attributes in the same order, the same
  text) in any order and any number of copies, for every hash, and when they hold the same
  contents and the hash agrees with \<open>__eq__\<close> on them.
\<close>

lemma compare_entry_of_shared_key:
  assumes "k \<in> fst ` set paths1" and "k \<in> fst ` set paths2"
    and "set_member py_hash ` set (the (map_of paths1 k))
      = set_member py_hash ` set (the (map_of paths2 k))"
  shows "\<exists>d. XMLCompare_compare py_hash paths1 paths2 [] = Inr d \<and> map_of d k = None"
proof -
  from XMLCompare_compare_result [of py_hash paths1 paths2]
  obtain d where run: "XMLCompare_compare py_hash paths1 paths2 [] = Inr d"
    and entry: "\<And>k. map_of d k =
          (if k \<in> fst ` set paths1 \<and> k \<notin> fst ` set paths2
             then Some [(''root1'', the (map_of paths1 k))]
           else if k \<in> fst ` set paths2 \<and> k \<notin> fst ` set paths1
             then Some [(''root2'', the (map_of paths2 k))]
           else if k \<in> fst ` set paths1 \<and> k \<in> fst ` set paths2
               \<and> set_member py_hash ` set (the (map_of paths1 k))
                   \<noteq> set_member py_hash ` set (the (map_of paths2 k))
             then Some [(''root1'', the (map_of paths1 k)), (''root2'', the (map_of paths2 k))]
           else None)"
    by (elim exE conjE) (rule that, assumption, erule spec)
  have "map_of d k = None"
    unfolding entry [of k] using assms by simp
  with run show ?thesis
    by simp
qed

lemma same_contents_no_entry:
  assumes shared: "k \<in> fst ` set paths1" "k \<in> fst ` set paths2"
    and contents: "wrapper_content ` set (the (map_of paths1 k))
        = wrapper_content ` set (the (map_of paths2 k))"
    and hash: "\<And>a b. a \<in> set (the (map_of paths1 k)) \<union> set (the (map_of paths2 k)) \<Longrightarrow>
        b \<in> set (the (map_of paths1 k)) \<union> set (the (map_of paths2 k)) \<Longrightarrow>
        WrappedElement_eq a b \<Longrightarrow>
        WrappedElement_hash py_hash a = WrappedElement_hash py_hash b"
  shows "\<exists>d. XMLCompare_compare py_hash paths1 paths2 [] = Inr d \<and> map_of d k = None"
proof -
  from contents hash
  have "set_member py_hash ` set (the (map_of paths1 k))
      = set_member py_hash ` set (the (map_of paths2 k))"
    by (rule same_contents_same_members)
  with shared show ?thesis
    by (rule compare_entry_of_shared_key)
qed

lemma same_wrappers_no_entry:
  assumes shared: "k \<in> fst ` set paths1" "k \<in> fst ` set paths2"
    and data: "wrapper_data ` set (the (map_of paths1 k))
        = wrapper_data ` set (the (map_of paths2 k))"
  shows "\<exists>d. XMLCompare_compare py_hash paths1 paths2 [] = Inr d \<and> map_of d k = None"
proof -
  let ?g = "\<lambda>d. (py_hash (map (\<lambda>(k, v). AttribItem k v) (fst d) @ [TextItem (snd d)]),
      map_of (fst d), snd d)"
  from data have "?g ` wrapper_data ` set (the (map_of paths1 k))
      = ?g ` wrapper_data ` set (the (map_of paths2 k))"
    by simp
  then have "set_member py_hash ` set (the (map_of paths1 k))
      = set_member py_hash ` set (the (map_of paths2 k))"
    by (simp add: image_image set_member_data)
  with shared show ?thesis
    by (rule compare_entry_of_shared_key)
qed

text \<open>
  C6. The documents \<open><r><a x="1" y="2"/></r>\<close> and \<open><r><a y="2" x="1"/></r>\<close>, compared
  with no preferred attribute: both path maps have the key \<open>/r/a\<close> with one wrapper
  each, the two wrappers are equal by \<open>__eq__\<close> (the same attribute mapping, the same
  text), so the two lists hold the same set of wrapper contents. Their hash tuples
  differ in the order of the attributes; with a hash that tells the tuples apart the two
  Python sets differ and a diff entry with both lists is recorded under \<open>/r/a\<close>.
\<close>

theorem reordered_attributes_are_reported:
  "WrappedElement_eq
     (WrappedElement (Element ''a'' [(''x'', ''1''), (''y'', ''2'')] None []))
     (WrappedElement (Element ''a'' [(''y'', ''2''), (''x'', ''1'')] None []))
   \<and> map_sum id (\<lambda>self. (map_of (paths (p_paths1 self)) ''/r/a'',
                          map_of (paths (p_paths2 self)) ''/r/a'',
                          diff_items self, the_same self))
       (XMLCompare_init (\<lambda>t. t)
         (Element ''r'' [] None [Element ''a'' [(''x'', ''1''), (''y'', ''2'')] None []])
         (Element ''r'' [] None [Element ''a'' [(''y'', ''2''), (''x'', ''1'')] None []])
         [] 80)
     = Inr (Some [WrappedElement (Element ''a'' [(''x'', ''1''), (''y'', ''2'')] None [])],
            Some [WrappedElement (Element ''a'' [(''y'', ''2''), (''x'', ''1'')] None [])],
            [(''/r/a'',
              [(''root1'', [WrappedElement (Element ''a'' [(''x'', ''1''), (''y'', ''2'')] None [])]),
               (''root2'', [WrappedElement (Element ''a'' [(''y'', ''2''), (''x'', ''1'')] None [])])])],
            False)"
  by code_simp

end
